theory Spec2Isabelle
  imports Main "HOL-Library.Word" "HOL-Library.List_Lexorder" "HOL-Library.Multiset"
    "HOL-Library.Sublist"
begin

section \<open>JavaScript values\<close>

text \<open>
  A JavaScript string is a sequence of 16-bit code units. String comparison (the default
  order of \<^verbatim>\<open>Array.prototype.sort\<close>) is lexicographic on code units, which is the order
  of lists over a linear order. \<open>js\<close> turns an ASCII literal into such a string.
\<close>

type_synonym jstring = "16 word list"

definition js :: "string \<Rightarrow> jstring" where
  "js s = map (\<lambda>c. of_nat (of_char c)) s"

text \<open>
  The values are those \<^verbatim>\<open>JSON.parse\<close> produces. A number is represented by its rendering
  \<^verbatim>\<open>String(n)\<close>: the code only tests numbers for truthiness and prints them. An object is
  the list of its own properties in the order in which \<^verbatim>\<open>Object.keys\<close> enumerates them;
  its prototype is \<^verbatim>\<open>Object.prototype\<close>, as it is for every object that \<^verbatim>\<open>JSON.parse\<close>
  or a literal \<^verbatim>\<open>{}\<close> creates, and \<^verbatim>\<open>Array.prototype\<close> for an array.
\<close>

datatype prim = PNull | PBool bool | PNum jstring | PStr jstring

datatype jsval =
    JPrim prim
  | JArr "jsval list"
  | JObj "(jstring \<times> jsval) list"

type_synonym entries = "(jstring \<times> jsval) list"

text \<open>\<^verbatim>\<open>!v\<close>: null, false, 0, NaN and the empty string are falsy.\<close>

fun falsy :: "jsval \<Rightarrow> bool" where
  "falsy (JPrim PNull) = True"
| "falsy (JPrim (PBool b)) = (\<not> b)"
| "falsy (JPrim (PNum r)) = (r = js ''0'' \<or> r = js ''NaN'')"
| "falsy (JPrim (PStr s)) = (s = [])"
| "falsy (JArr xs) = False"
| "falsy (JObj kvs) = False"

text \<open>\<^verbatim>\<open>typeof v === 'object'\<close> holds of null, of arrays and of objects.\<close>

fun typeof_object :: "jsval \<Rightarrow> bool" where
  "typeof_object (JPrim PNull) = True"
| "typeof_object (JPrim p) = False"
| "typeof_object (JArr xs) = True"
| "typeof_object (JObj kvs) = True"

fun isArray :: "jsval \<Rightarrow> bool" where
  "isArray (JArr xs) = True"
| "isArray v = False"

text \<open>
  The test \<^verbatim>\<open>value && typeof value === 'object' && !Array.isArray(value)\<close> by which every
  tree utility tells a directory from a file. It holds of the objects and of nothing else,
  so the loops below match on \<open>JObj\<close> for the directory branch.
\<close>

definition isDirectory :: "jsval \<Rightarrow> bool" where
  "isDirectory value = (\<not> falsy value \<and> typeof_object value \<and> \<not> isArray value)"

text \<open>\<^verbatim>\<open>String(p)\<close> of a primitive, and of an array index.\<close>

fun String :: "prim \<Rightarrow> jstring" where
  "String PNull = js ''null''"
| "String (PBool b) = (if b then js ''true'' else js ''false'')"
| "String (PNum r) = r"
| "String (PStr s) = s"

fun decimal :: "nat \<Rightarrow> jstring" where
  "decimal n = (if n < 10 then [of_nat (48 + n)] else decimal (n div 10) @ [of_nat (48 + n mod 10)])"

declare decimal.simps [simp del]

text \<open>
  \<^verbatim>\<open>JSON.stringify(p, null, 2)\<close> of a primitive: a string is quoted (code unit 34), with the
  two-character escapes (a backslash, code unit 92, and a letter) and the four-digit
  hexadecimal escape for the other control characters and for unpaired surrogates;
  a number that is not finite prints as null.
\<close>

definition hexdigit :: "nat \<Rightarrow> 16 word" where
  "hexdigit n = (if n < 10 then of_nat (48 + n) else of_nat (87 + n))"

definition unicodeEscape :: "16 word \<Rightarrow> jstring" where
  "unicodeEscape c =
     [92, 117, hexdigit (unat c div 4096), hexdigit (unat c div 256 mod 16),
      hexdigit (unat c div 16 mod 16), hexdigit (unat c mod 16)]"

definition isLeadingSurrogate :: "16 word \<Rightarrow> bool" where
  "isLeadingSurrogate c = (0xD800 \<le> c \<and> c \<le> 0xDBFF)"

definition isTrailingSurrogate :: "16 word \<Rightarrow> bool" where
  "isTrailingSurrogate c = (0xDC00 \<le> c \<and> c \<le> 0xDFFF)"

fun quoteJSONString_body :: "jstring \<Rightarrow> jstring" where
  "quoteJSONString_body [] = []"
| "quoteJSONString_body (c # cs) =
     (if c = 8 then [92, 98] @ quoteJSONString_body cs
      else if c = 9 then [92, 116] @ quoteJSONString_body cs
      else if c = 10 then [92, 110] @ quoteJSONString_body cs
      else if c = 12 then [92, 102] @ quoteJSONString_body cs
      else if c = 13 then [92, 114] @ quoteJSONString_body cs
      else if c = 34 then [92, 34] @ quoteJSONString_body cs
      else if c = 92 then [92, 92] @ quoteJSONString_body cs
      else if c < 32 then unicodeEscape c @ quoteJSONString_body cs
      else if isLeadingSurrogate c then
        (case cs of
           [] \<Rightarrow> unicodeEscape c
         | d # ds \<Rightarrow>
             if isTrailingSurrogate d then c # d # quoteJSONString_body ds
             else unicodeEscape c @ quoteJSONString_body cs)
      else if isTrailingSurrogate c then unicodeEscape c @ quoteJSONString_body cs
      else c # quoteJSONString_body cs)"

definition quoteJSONString :: "jstring \<Rightarrow> jstring" where
  "quoteJSONString s = 34 # quoteJSONString_body s @ [34]"

fun JSON_stringify :: "prim \<Rightarrow> jstring" where
  "JSON_stringify PNull = js ''null''"
| "JSON_stringify (PBool b) = (if b then js ''true'' else js ''false'')"
| "JSON_stringify (PNum r) =
     (if r = js ''NaN'' \<or> r = js ''Infinity'' \<or> r = js ''-Infinity'' then js ''null'' else r)"
| "JSON_stringify (PStr s) = quoteJSONString s"

section \<open>Objects as ordered property lists\<close>

text \<open>
  An array index is a canonical numeric string below \<open>2^32 - 1\<close>. JavaScript enumerates the
  properties of an object with the array indices first, in ascending numeric order, and
  the other names after them in the order of their creation.
\<close>

definition is_digit :: "16 word \<Rightarrow> bool" where
  "is_digit c = (48 \<le> c \<and> c \<le> 57)"

definition digits_value :: "jstring \<Rightarrow> nat" where
  "digits_value s = foldl (\<lambda>n c. 10 * n + (unat c - 48)) 0 s"

definition array_index :: "jstring \<Rightarrow> nat option" where
  "array_index s =
     (if s \<noteq> [] \<and> list_all is_digit s \<and> (hd s \<noteq> 48 \<or> length s = 1)
         \<and> digits_value s < 2 ^ 32 - 1
      then Some (digits_value s) else None)"

text \<open>A new array index goes before the first property that is not a smaller array index.\<close>

fun insert_index :: "nat \<Rightarrow> jstring \<times> 'v \<Rightarrow> (jstring \<times> 'v) list \<Rightarrow> (jstring \<times> 'v) list" where
  "insert_index n e [] = [e]"
| "insert_index n e ((k, v) # rest) =
     (case array_index k of
        Some m \<Rightarrow> if m < n then (k, v) # insert_index n e rest else e # (k, v) # rest
      | None \<Rightarrow> e # (k, v) # rest)"

text \<open>
  The assignment \<^verbatim>\<open>obj[key] = value\<close>, as far as the own properties of \<open>obj\<close> go: an
  existing property keeps its place and gets the value; otherwise a new property is
  created, unless the key is \<^verbatim>\<open>__proto__\<close>. That name is an accessor inherited from
  \<^verbatim>\<open>Object.prototype\<close>: the assignment calls its setter, which replaces the prototype of
  \<open>obj\<close> when the value is an object or null and does nothing otherwise, and in both cases
  \<open>obj\<close> gets no property. (\<^verbatim>\<open>JSON.parse\<close> defines properties without calling setters, so
  a parsed object can have an own property of that name.) The list is polymorphic in the
  values, for the objects whose values are not yet JSON values.
\<close>

definition proto :: jstring where
  "proto = js ''__proto__''"

definition obj_put :: "(jstring \<times> 'v) list \<Rightarrow> jstring \<Rightarrow> 'v \<Rightarrow> (jstring \<times> 'v) list" where
  "obj_put obj key value =
     (if key \<in> set (map fst obj)
      then map (\<lambda>(k, v). if k = key then (k, value) else (k, v)) obj
      else if key = proto then obj
      else case array_index key of
             Some n \<Rightarrow> insert_index n (key, value) obj
           | None \<Rightarrow> obj @ [(key, value)])"

text \<open>
  \<^verbatim>\<open>Object.entries(v)\<close> for a value that passed the guard
  \<^verbatim>\<open>!tree || typeof tree !== 'object'\<close>: the properties of an object, the index-keyed
  elements of an array; a value that fails the guard has no entries to loop over.
\<close>

definition array_entries :: "jsval list \<Rightarrow> entries" where
  "array_entries xs = zip (map decimal [0..<length xs]) xs"

fun own_entries :: "jsval \<Rightarrow> entries" where
  "own_entries (JObj kvs) = kvs"
| "own_entries (JArr xs) = array_entries xs"
| "own_entries (JPrim p) = []"

section \<open>Tree utilities\<close>

text \<open>
  Every utility loops over the entries of its argument and calls itself on the values that
  are directories. The loop is the recursive function; the utility applies it to the
  entries of the tree (a directory always passes the guard of the recursive call).
\<close>

definition slash :: "16 word" where
  "slash = 47"

definition join_path :: "jstring \<Rightarrow> jstring \<Rightarrow> jstring" where
  "join_path basePath key = (if basePath \<noteq> [] then basePath @ slash # key else key)"

function (sequential) getFilePaths_forEach :: "entries \<Rightarrow> jstring \<Rightarrow> jstring list" where
  "getFilePaths_forEach [] basePath = []"
| "getFilePaths_forEach ((key, JObj kvs) # rest) basePath =
     getFilePaths_forEach kvs (join_path basePath key) @ getFilePaths_forEach rest basePath"
| "getFilePaths_forEach ((key, value) # rest) basePath =
     join_path basePath key # getFilePaths_forEach rest basePath"
  by pat_completeness auto
termination
  by (relation "measure (\<lambda>(es, b). size (JObj es))") auto

definition getFilePaths :: "jsval \<Rightarrow> jstring \<Rightarrow> jstring list" where
  "getFilePaths tree basePath = getFilePaths_forEach (own_entries tree) basePath"

function (sequential) getTreeDepth_forEach :: "entries \<Rightarrow> nat \<Rightarrow> nat" where
  "getTreeDepth_forEach [] maxDepth = maxDepth"
| "getTreeDepth_forEach ((key, JObj kvs) # rest) maxDepth =
     getTreeDepth_forEach rest (max maxDepth (1 + getTreeDepth_forEach kvs 0))"
| "getTreeDepth_forEach ((key, value) # rest) maxDepth = getTreeDepth_forEach rest maxDepth"
  by pat_completeness auto
termination
  by (relation "measure (\<lambda>(es, m). size (JObj es))") auto

definition getTreeDepth :: "jsval \<Rightarrow> nat" where
  "getTreeDepth tree = getTreeDepth_forEach (own_entries tree) 0"

function (sequential) countTreeFiles_forEach :: "entries \<Rightarrow> nat \<Rightarrow> nat" where
  "countTreeFiles_forEach [] cnt = cnt"
| "countTreeFiles_forEach ((key, JObj kvs) # rest) cnt =
     countTreeFiles_forEach rest (cnt + countTreeFiles_forEach kvs 0)"
| "countTreeFiles_forEach ((key, value) # rest) cnt = countTreeFiles_forEach rest (cnt + 1)"
  by pat_completeness auto
termination
  by (relation "measure (\<lambda>(es, c). size (JObj es))") auto

definition countTreeFiles :: "jsval \<Rightarrow> nat" where
  "countTreeFiles tree = countTreeFiles_forEach (own_entries tree) 0"

function (sequential) countTreeDirectories_forEach :: "entries \<Rightarrow> nat \<Rightarrow> nat" where
  "countTreeDirectories_forEach [] cnt = cnt"
| "countTreeDirectories_forEach ((key, JObj kvs) # rest) cnt =
     countTreeDirectories_forEach rest (cnt + 1 + countTreeDirectories_forEach kvs 0)"
| "countTreeDirectories_forEach ((key, value) # rest) cnt = countTreeDirectories_forEach rest cnt"
  by pat_completeness auto
termination
  by (relation "measure (\<lambda>(es, c). size (JObj es))") auto

definition countTreeDirectories :: "jsval \<Rightarrow> nat" where
  "countTreeDirectories tree = countTreeDirectories_forEach (own_entries tree) 0"





function (sequential) isValidTree_every :: "entries \<Rightarrow> bool" where
  "isValidTree_every [] = True"
| "isValidTree_every ((key, JObj kvs) # rest) = (isValidTree_every kvs \<and> isValidTree_every rest)"
| "isValidTree_every ((key, value) # rest) = isValidTree_every rest"
  by pat_completeness auto
termination
  by (relation "measure (\<lambda>es. size (JObj es))") auto

definition isValidTree :: "jsval \<Rightarrow> bool" where
  "isValidTree obj =
     (if falsy obj \<or> \<not> typeof_object obj \<or> isArray obj then False
      else isValidTree_every (own_entries obj))"

text \<open>\<^verbatim>\<open>s.split(d)\<close> with a one-character separator.\<close>

fun split_on :: "'a \<Rightarrow> 'a list \<Rightarrow> 'a list list" where
  "split_on d [] = [[]]"
| "split_on d (c # cs) =
     (if c = d then [] # split_on d cs
      else case split_on d cs of
             [] \<Rightarrow> [[c]]
           | p # ps \<Rightarrow> (c # p) # ps)"

definition pathParts :: "jstring \<Rightarrow> jstring list" where
  "pathParts p = filter (\<lambda>part. length part > 0) (split_on slash p)"

text \<open>
  \<open>findNodeByPath\<close> tests \<^verbatim>\<open>part in current\<close> and reads \<^verbatim>\<open>current[part]\<close>; both see the
  inherited properties as well as the own ones. So the walk can leave the JSON values: it
  can arrive at a built-in function (every method of the two prototypes, and their
  \<^verbatim>\<open>constructor\<close>) and, through the name \<^verbatim>\<open>__proto__\<close>, at the prototype objects
  themselves. \<open>object_prototype_names\<close> are the other properties of \<^verbatim>\<open>Object.prototype\<close>,
  which ECMAScript fixes; the names of the methods of \<^verbatim>\<open>Array.prototype\<close> grow with the
  edition of the language, so the lookup takes them as the parameter \<open>arrayMethods\<close>
  (\<open>es2023_array_methods\<close> is that table for ECMAScript 2023).
\<close>

datatype host = ObjectPrototype | ArrayPrototype | BuiltinFunction

datatype found = Node jsval | Host host

definition object_prototype_names :: "jstring list" where
  "object_prototype_names =
     map js [''constructor'', ''__defineGetter__'', ''__defineSetter__'', ''hasOwnProperty'',
       ''__lookupGetter__'', ''__lookupSetter__'', ''isPrototypeOf'', ''propertyIsEnumerable'',
       ''toString'', ''valueOf'', ''toLocaleString'']"

definition es2023_array_methods :: "jstring list" where
  "es2023_array_methods =
     map js [''at'', ''concat'', ''copyWithin'', ''fill'', ''find'', ''findIndex'', ''findLast'',
       ''findLastIndex'', ''lastIndexOf'', ''pop'', ''push'', ''reverse'', ''shift'', ''unshift'',
       ''slice'', ''sort'', ''splice'', ''includes'', ''indexOf'', ''join'', ''keys'', ''entries'',
       ''values'', ''forEach'', ''filter'', ''flat'', ''flatMap'', ''map'', ''every'', ''some'',
       ''reduce'', ''reduceRight'', ''toReversed'', ''toSorted'', ''toSpliced'', ''with'']"

text \<open>
  The properties an object inherits from \<^verbatim>\<open>Object.prototype\<close>, and those an array
  inherits from \<^verbatim>\<open>Array.prototype\<close> and, behind it, from \<^verbatim>\<open>Object.prototype\<close>: the value
  read, or \<open>None\<close> when \<^verbatim>\<open>in\<close> is false.
\<close>

definition inherited_object :: "jstring \<Rightarrow> found option" where
  "inherited_object part =
     (if part = proto then Some (Host ObjectPrototype)
      else if part \<in> set object_prototype_names then Some (Host BuiltinFunction)
      else None)"

definition inherited_array :: "jstring list \<Rightarrow> jstring \<Rightarrow> found option" where
  "inherited_array arrayMethods part =
     (if part = proto then Some (Host ArrayPrototype)
      else if part \<in> set arrayMethods \<or> part \<in> set object_prototype_names
      then Some (Host BuiltinFunction)
      else None)"

text \<open>
  One turn of the loop: \<open>None\<close> when the guard
  \<^verbatim>\<open>!current || typeof current !== 'object' || !(part in current)\<close> returns null, otherwise
  the new \<^verbatim>\<open>current\<close>. An own property hides an inherited one. A primitive fails the
  guard, and so does a function, whose \<^verbatim>\<open>typeof\<close> is \<^verbatim>\<open>'function'\<close>. The prototype of
  \<^verbatim>\<open>Object.prototype\<close> is null; \<^verbatim>\<open>Array.prototype\<close> is an empty array.
\<close>

fun findNodeByPath_step :: "jstring list \<Rightarrow> found \<Rightarrow> jstring \<Rightarrow> found option" where
  "findNodeByPath_step arrayMethods (Node (JObj kvs)) part =
     (case map_of kvs part of
        Some v \<Rightarrow> Some (Node v)
      | None \<Rightarrow> inherited_object part)"
| "findNodeByPath_step arrayMethods (Node (JArr xs)) part =
     (case map_of (array_entries xs) part of
        Some v \<Rightarrow> Some (Node v)
      | None \<Rightarrow>
          if part = js ''length'' then Some (Node (JPrim (PNum (decimal (length xs)))))
          else inherited_array arrayMethods part)"
| "findNodeByPath_step arrayMethods (Node (JPrim p)) part = None"
| "findNodeByPath_step arrayMethods (Host ObjectPrototype) part =
     (if part = proto then Some (Node (JPrim PNull))
      else if part \<in> set object_prototype_names then Some (Host BuiltinFunction)
      else None)"
| "findNodeByPath_step arrayMethods (Host ArrayPrototype) part =
     (if part = js ''length'' then Some (Node (JPrim (PNum (js ''0''))))
      else if part = proto then Some (Host ObjectPrototype)
      else if part \<in> set arrayMethods \<or> part \<in> set object_prototype_names
      then Some (Host BuiltinFunction)
      else None)"
| "findNodeByPath_step arrayMethods (Host BuiltinFunction) part = None"

fun findNodeByPath_walk :: "jstring list \<Rightarrow> found \<Rightarrow> jstring list \<Rightarrow> found" where
  "findNodeByPath_walk arrayMethods current [] = current"
| "findNodeByPath_walk arrayMethods current (part # rest) =
     (case findNodeByPath_step arrayMethods current part of
        None \<Rightarrow> Node (JPrim PNull)
      | Some next \<Rightarrow> findNodeByPath_walk arrayMethods next rest)"

definition findNodeByPath :: "jstring list \<Rightarrow> jsval \<Rightarrow> jstring \<Rightarrow> found" where
  "findNodeByPath arrayMethods tree p =
     (if falsy tree \<or> p = [] then Node (JPrim PNull)
      else findNodeByPath_walk arrayMethods (Node tree) (pathParts p))"

text \<open>
  \<open>createTreeFromPaths\<close> walks each path from the root with a cursor and writes through
  it; the model rebuilds the objects on the way back. Every leaf holds the one value
  \<^verbatim>\<open>defaultContent\<close>, by reference when it is an object; so the tree under construction
  is kept as folders (the objects made by \<^verbatim>\<open>{}\<close>) and leaves that stand for that value,
  and the value is put in at the end.

  The result is \<open>None\<close> where the source leaves the tree, which has effects that a value
  cannot show: an inner segment \<^verbatim>\<open>__proto__\<close> moves the cursor to \<^verbatim>\<open>Object.prototype\<close>,
  and the rest of the path is written into the prototype of every object; a last segment
  \<^verbatim>\<open>__proto__\<close> replaces the prototype of the cursor when the content is an object or
  null (a content that is another primitive is ignored by the setter, and nothing
  happens); and an inner segment that names a leaf, when the content is an object or an
  array, moves the cursor into the content itself, which is then changed under all
  leaves. A leaf whose content is a primitive is not an object and is replaced by a new
  folder, like a missing or an inherited property (the inherited ones are functions).
  The folders are made by \<^verbatim>\<open>{}\<close> and filled by assignment, so none has an own property
  named \<^verbatim>\<open>__proto__\<close>.
\<close>

datatype built = Content | Folder "(jstring \<times> built) list"

fun createTreeFromPaths_parts ::
    "jsval \<Rightarrow> (jstring \<times> built) list \<Rightarrow> jstring list \<Rightarrow> (jstring \<times> built) list option" where
  "createTreeFromPaths_parts defaultContent current [] = Some current"
| "createTreeFromPaths_parts defaultContent current [part] =
     (if part = proto then
        (case defaultContent of
           JPrim PNull \<Rightarrow> None
         | JPrim p \<Rightarrow> Some current
         | _ \<Rightarrow> None)
      else Some (obj_put current part Content))"
| "createTreeFromPaths_parts defaultContent current (part # rest) =
     (if part = proto then None
      else case map_of current part of
             Some (Folder sub) \<Rightarrow>
               map_option (\<lambda>sub'. obj_put current part (Folder sub'))
                 (createTreeFromPaths_parts defaultContent sub rest)
           | Some Content \<Rightarrow>
               if \<not> falsy defaultContent \<and> typeof_object defaultContent then None
               else map_option (\<lambda>sub'. obj_put current part (Folder sub'))
                      (createTreeFromPaths_parts defaultContent [] rest)
           | None \<Rightarrow>
               map_option (\<lambda>sub'. obj_put current part (Folder sub'))
                 (createTreeFromPaths_parts defaultContent [] rest))"

text \<open>An entry of \<open>paths\<close> that is falsy or not a string is skipped.\<close>

fun createTreeFromPaths_path ::
    "jsval \<Rightarrow> jsval \<Rightarrow> (jstring \<times> built) list \<Rightarrow> (jstring \<times> built) list option" where
  "createTreeFromPaths_path defaultContent (JPrim (PStr p)) tree =
     (if p = [] then Some tree else createTreeFromPaths_parts defaultContent tree (pathParts p))"
| "createTreeFromPaths_path defaultContent v tree = Some tree"

fun createTreeFromPaths_forEach ::
    "jsval \<Rightarrow> jsval list \<Rightarrow> (jstring \<times> built) list \<Rightarrow> (jstring \<times> built) list option" where
  "createTreeFromPaths_forEach defaultContent [] tree = Some tree"
| "createTreeFromPaths_forEach defaultContent (p # paths) tree =
     (case createTreeFromPaths_path defaultContent p tree of
        None \<Rightarrow> None
      | Some tree' \<Rightarrow> createTreeFromPaths_forEach defaultContent paths tree')"

fun built_value :: "jsval \<Rightarrow> built \<Rightarrow> jsval"
  and built_entries :: "jsval \<Rightarrow> (jstring \<times> built) list \<Rightarrow> entries" where
  "built_value defaultContent Content = defaultContent"
| "built_value defaultContent (Folder es) = JObj (built_entries defaultContent es)"
| "built_entries defaultContent [] = []"
| "built_entries defaultContent ((key, b) # rest) =
     (key, built_value defaultContent b) # built_entries defaultContent rest"

definition createTreeFromPaths :: "jsval list \<Rightarrow> jsval \<Rightarrow> jsval option" where
  "createTreeFromPaths paths defaultContent =
     map_option (\<lambda>tree. JObj (built_entries defaultContent tree))
       (createTreeFromPaths_forEach defaultContent paths [])"

text \<open>
  The node that a list of segments names through own properties alone (the nodes that
  the file and directory listings show).
\<close>

fun own_node :: "jsval \<Rightarrow> jstring list \<Rightarrow> jsval option" where
  "own_node v [] = Some v"
| "own_node (JObj kvs) (part # rest) =
     (case map_of kvs part of
        None \<Rightarrow> None
      | Some v \<Rightarrow> own_node v rest)"
| "own_node (JArr xs) (part # rest) = None"
| "own_node (JPrim p) (part # rest) = None"

text \<open>
  The reading of validity in the specification: a non-array object each of whose values is
  a valid tree or a leaf that is not an object (arrays are objects).
\<close>

function (sequential) spec_isValidTree_every :: "entries \<Rightarrow> bool" where
  "spec_isValidTree_every [] = True"
| "spec_isValidTree_every ((key, JObj kvs) # rest) =
     (spec_isValidTree_every kvs \<and> spec_isValidTree_every rest)"
| "spec_isValidTree_every ((key, JArr xs) # rest) = False"
| "spec_isValidTree_every ((key, JPrim p) # rest) = spec_isValidTree_every rest"
  by pat_completeness auto
termination
  by (relation "measure (\<lambda>es. size (JObj es))") auto

fun spec_isValidTree :: "jsval \<Rightarrow> bool" where
  "spec_isValidTree (JObj kvs) = spec_isValidTree_every kvs"
| "spec_isValidTree v = False"

section \<open>The converters\<close>

text \<open>
  \<open>sanitizeFilename\<close> is a chain of three global replacements and a trim. The class
  \<^verbatim>\<open>\s\<close> and \<^verbatim>\<open>trim\<close> use the same set of code units: white space and line
  terminators. A global replacement of a greedy pattern replaces each maximal run.
\<close>

definition reserved :: "16 word \<Rightarrow> bool" where
  "reserved c = (c \<in> {60, 62, 58, 34, 47, 92, 124, 63, 42})"

definition is_space :: "16 word \<Rightarrow> bool" where
  "is_space c =
     (c \<in> {9, 10, 11, 12, 13, 32, 0xA0, 0x1680, 0x2028, 0x2029, 0x202F, 0x205F, 0x3000, 0xFEFF}
      \<or> (0x2000 \<le> c \<and> c \<le> 0x200A))"

definition underscore :: "16 word" where
  "underscore = 95"

definition replace_reserved :: "jstring \<Rightarrow> jstring" where
  "replace_reserved s = map (\<lambda>c. if reserved c then underscore else c) s"

function replace_whitespace :: "jstring \<Rightarrow> jstring" where
  "replace_whitespace [] = []"
| "replace_whitespace (c # cs) =
     (if is_space c then underscore # replace_whitespace (dropWhile is_space cs)
      else c # replace_whitespace cs)"
  by pat_completeness auto
termination
  by (relation "measure length") (auto simp: less_Suc_eq_le length_dropWhile_le)

function replace_underscores :: "jstring \<Rightarrow> jstring" where
  "replace_underscores [] = []"
| "replace_underscores (c # cs) =
     (if c = underscore \<and> (case cs of [] \<Rightarrow> False | d # ds \<Rightarrow> d = underscore)
      then underscore # replace_underscores (dropWhile (\<lambda>d. d = underscore) cs)
      else c # replace_underscores cs)"
  by pat_completeness auto
termination
  by (relation "measure length") (auto simp: less_Suc_eq_le length_dropWhile_le)

definition trim :: "jstring \<Rightarrow> jstring" where
  "trim s = rev (dropWhile is_space (rev (dropWhile is_space s)))"

definition sanitizeFilename :: "jstring \<Rightarrow> jstring" where
  "sanitizeFilename filename =
     trim (replace_underscores (replace_whitespace (replace_reserved filename)))"

text \<open>
  \<open>createFileTree\<close> fills one flat object, keyed by file path; \<open>processNode\<close> threads it
  through the recursion. The branches are tried in the order of the source: an array, any
  other object, a primitive (\<^verbatim>\<open>typeof null\<close> is \<^verbatim>\<open>'object'\<close>, and null is sent to the
  primitive branch by the test \<^verbatim>\<open>!== null\<close>).
\<close>

function (sequential) processNode :: "jsval \<Rightarrow> jstring \<Rightarrow> entries \<Rightarrow> entries"
  and processNode_items :: "jsval list \<Rightarrow> nat \<Rightarrow> jstring \<Rightarrow> entries \<Rightarrow> entries"
  and processNode_entries :: "entries \<Rightarrow> jstring \<Rightarrow> entries \<Rightarrow> entries"
where
  "processNode (JArr xs) currentPath fileTree = processNode_items xs 0 currentPath fileTree"
| "processNode (JObj kvs) currentPath fileTree = processNode_entries kvs currentPath fileTree"
| "processNode (JPrim p) currentPath fileTree =
     obj_put fileTree ((if currentPath \<noteq> [] then currentPath else js ''data'') @ js ''.txt'')
       (JPrim (PStr (String p)))"
| "processNode_items [] index currentPath fileTree = fileTree"
| "processNode_items (item # rest) index currentPath fileTree =
     (let itemPath = currentPath @ js ''/item_'' @ decimal index in
      processNode_items rest (index + 1) currentPath
        (case item of
           JPrim p \<Rightarrow> obj_put fileTree (itemPath @ js ''.txt'') (JPrim (PStr (String p)))
         | _ \<Rightarrow> processNode item itemPath fileTree))"
| "processNode_entries [] currentPath fileTree = fileTree"
| "processNode_entries ((key, value) # rest) currentPath fileTree =
     (let sanitizedKey = sanitizeFilename key;
          newPath = (if currentPath \<noteq> [] then currentPath @ js ''/'' @ sanitizedKey
                     else sanitizedKey) in
      processNode_entries rest currentPath
        (case value of
           JPrim p \<Rightarrow> obj_put fileTree (newPath @ js ''.txt'') (JPrim (PStr (String p)))
         | _ \<Rightarrow> processNode value newPath fileTree))"
  by pat_completeness auto
termination
  by (relation "measure (case_sum (\<lambda>p. size (fst p))
        (case_sum (\<lambda>p. size_list size (fst p))
           (\<lambda>p. size_list (size_prod (\<lambda>x. 0) size) (fst p))))")
     auto

definition createFileTree :: "jsval \<Rightarrow> jstring \<Rightarrow> jsval" where
  "createFileTree data basePath = JObj (processNode data basePath [])"

text \<open>
  \<open>generateFileStructure\<close> pushes one record \<^verbatim>\<open>{path, content}\<close> per file onto a list;
  the model has the pair of the two fields. It does not sanitize the keys.
\<close>

type_synonym file_entry = "jstring \<times> jstring"

function (sequential) processObject :: "jsval \<Rightarrow> jstring \<Rightarrow> file_entry list \<Rightarrow> file_entry list"
  and processObject_items :: "jsval list \<Rightarrow> nat \<Rightarrow> jstring \<Rightarrow> file_entry list \<Rightarrow> file_entry list"
  and processObject_entries :: "entries \<Rightarrow> jstring \<Rightarrow> file_entry list \<Rightarrow> file_entry list"
where
  "processObject (JArr xs) currentPath files = processObject_items xs 0 currentPath files"
| "processObject (JObj kvs) currentPath files = processObject_entries kvs currentPath files"
| "processObject (JPrim p) currentPath files =
     files @ [((if currentPath \<noteq> [] then currentPath else js ''data'') @ js ''.txt'', String p)]"
| "processObject_items [] index currentPath files = files"
| "processObject_items (item # rest) index currentPath files =
     (let itemPath = currentPath @ js ''/item_'' @ decimal index in
      processObject_items rest (index + 1) currentPath
        (case item of
           JPrim p \<Rightarrow> files @ [(itemPath @ js ''.txt'', String p)]
         | _ \<Rightarrow> processObject item itemPath files))"
| "processObject_entries [] currentPath files = files"
| "processObject_entries ((key, value) # rest) currentPath files =
     (let newPath = (if currentPath \<noteq> [] then currentPath @ js ''/'' @ key else key) in
      processObject_entries rest currentPath
        (case value of
           JPrim p \<Rightarrow>
             (let extension =
                    (case p of
                       PStr s \<Rightarrow> if length s > 100 then js ''txt'' else js ''json''
                     | _ \<Rightarrow> js ''json'') in
              files @ [(newPath @ js ''.'' @ extension,
                        if extension = js ''json'' then JSON_stringify p else String p)])
         | _ \<Rightarrow> processObject value newPath files))"
  by pat_completeness auto
termination
  by (relation "measure (case_sum (\<lambda>p. size (fst p))
        (case_sum (\<lambda>p. size_list size (fst p))
           (\<lambda>p. size_list (size_prod (\<lambda>x. 0) size) (fst p))))")
     auto

definition generateFileStructure :: "jsval \<Rightarrow> jstring \<Rightarrow> file_entry list" where
  "generateFileStructure obj p = processObject obj p []"

record tree_stats =
  files :: nat
  directories :: nat
  depth :: nat
  totalNodes :: nat

definition getTreeStats :: "jsval \<Rightarrow> tree_stats" where
  "getTreeStats tree =
     \<lparr> files = countTreeFiles tree,
       directories = countTreeDirectories tree,
       depth = getTreeDepth tree,
       totalNodes = countTreeFiles tree + countTreeDirectories tree \<rparr>"

section \<open>Invariants of the constructed trees\<close>



text \<open>
  The files of a tree as lists of names from the root: the path of a file is the list of
  its segments. An antichain holds no list together with a proper prefix of it.
\<close>

function leaves :: "entries \<Rightarrow> jstring list list" where
  "leaves [] = []"
| "leaves ((key, JObj kvs) # rest) = map ((#) key) (leaves kvs) @ leaves rest"
| "leaves ((key, JArr xs) # rest) = [key] # leaves rest"
| "leaves ((key, JPrim p) # rest) = [key] # leaves rest"
  by pat_completeness auto
termination
  by (relation "measure (\<lambda>es. size (JObj es))") auto

definition antichain :: "'a list set \<Rightarrow> bool" where
  "antichain A = (\<forall>a \<in> A. \<forall>b \<in> A. prefix a b \<longrightarrow> a = b)"

text \<open>
  A name that survives the round trip through a path string is not empty, holds no
  slash and is not \<^verbatim>\<open>__proto__\<close>. \<open>names_ok\<close> asks this of every name of every directory,
  with the names of one directory distinct. A file may hold anything.
\<close>

definition valid_name :: "jstring \<Rightarrow> bool" where
  "valid_name key = (key \<noteq> [] \<and> slash \<notin> set key \<and> key \<noteq> proto)"

fun names_ok :: "jsval \<Rightarrow> bool" where
  "names_ok (JPrim p) = True"
| "names_ok (JArr xs) = True"
| "names_ok (JObj kvs) =
     (distinct (map fst kvs) \<and> list_all (\<lambda>(key, value). valid_name key \<and> names_ok value) kvs)"

text \<open>A flat file map: the keys are unique and no value is a directory.\<close>

definition flat_files :: "entries \<Rightarrow> bool" where
  "flat_files ft = (distinct (map fst ft) \<and> list_all (\<lambda>(k, v). \<not> isDirectory v) ft)"

text \<open>
  The same for a tree under construction: its leaves as lists of names (below a leaf
  there is the empty list of names only), the uniqueness of the names of every folder,
  and the node that a list of segments names.
\<close>

fun built_paths :: "built \<Rightarrow> jstring list list"
  and built_leaves :: "(jstring \<times> built) list \<Rightarrow> jstring list list" where
  "built_paths Content = [[]]"
| "built_paths (Folder es) = built_leaves es"
| "built_leaves [] = []"
| "built_leaves ((key, b) # rest) = map ((#) key) (built_paths b) @ built_leaves rest"

fun built_distinct_keys :: "built \<Rightarrow> bool"
  and built_distinct :: "(jstring \<times> built) list \<Rightarrow> bool" where
  "built_distinct_keys Content = True"
| "built_distinct_keys (Folder es) = built_distinct es"
| "built_distinct [] = True"
| "built_distinct ((key, b) # rest) =
     (key \<notin> set (map fst rest) \<and> built_distinct_keys b \<and> built_distinct rest)"

fun built_node :: "built \<Rightarrow> jstring list \<Rightarrow> built option" where
  "built_node b [] = Some b"
| "built_node (Folder es) (part # rest) =
     (case map_of es part of
        None \<Rightarrow> None
      | Some b \<Rightarrow> built_node b rest)"
| "built_node Content (part # rest) = None"

text \<open>A path none of whose segments is \<^verbatim>\<open>__proto__\<close>; an entry that is skipped has none.\<close>

fun proto_free :: "jsval \<Rightarrow> bool" where
  "proto_free (JPrim (PStr p)) = (proto \<notin> set (pathParts p))"
| "proto_free v = True"

section \<open>Basic facts\<close>

lemma isDirectory_simps [simp]:
  "isDirectory (JObj kvs)" "\<not> isDirectory (JArr xs)" "\<not> isDirectory (JPrim p)"
  by (cases p; simp add: isDirectory_def)+

lemma isValidTree_every_True: "isValidTree_every kvs"
  by (induction kvs rule: isValidTree_every.induct) auto

lemma pathParts_slashes: "set p \<subseteq> {slash} \<Longrightarrow> pathParts p = []"
  by (induction p) (auto simp: pathParts_def)

text \<open>The lookup follows own properties as far as they lead.\<close>

lemma walk_own_node:
  "own_node t before = Some v \<Longrightarrow>
   findNodeByPath_walk arrayMethods (Node t) (before @ after)
     = findNodeByPath_walk arrayMethods (Node v) after"
proof (induction t before rule: own_node.induct)
  case (1 v)
  then show ?case by simp
next
  case (2 kvs part rest)
  then show ?case by (auto split: option.splits)
qed simp_all

section \<open>Array indices\<close>







section \<open>Assignment to a property\<close>

lemma mset_insert_index: "mset (insert_index n e obj) = add_mset e (mset obj)"
  by (induction obj) (auto split: option.splits)

lemma set_insert_index: "set (insert_index n e obj) = insert e (set obj)"
  by (metis mset_insert_index set_mset_add_mset_insert set_mset_mset)

lemma map_of_insert_index:
  "k \<notin> fst ` set obj \<Longrightarrow>
   map_of (insert_index n (k, v) obj) k' = (if k' = k then Some v else map_of obj k')"
  by (induction obj) (auto split: option.splits)

lemma map_of_replace_same:
  "k \<in> fst ` set obj \<Longrightarrow>
   map_of (map (\<lambda>(k', v'). if k' = k then (k', v) else (k', v')) obj) k = Some v"
  by (induction obj) auto

lemma map_of_replace_other:
  "k' \<noteq> k \<Longrightarrow>
   map_of (map (\<lambda>(k', v'). if k' = k then (k', v) else (k', v')) obj) k' = map_of obj k'"
  by (induction obj) auto

lemma keys_replace:
  "map fst (map (\<lambda>(k', v'). if k' = k then (k', v) else (k', v')) obj) = map fst obj"
  by (induction obj) auto


lemma map_of_obj_put:
  assumes "k \<noteq> proto"
  shows "map_of (obj_put obj k v) k' = (if k' = k then Some v else map_of obj k')"
proof (cases "k \<in> fst ` set obj")
  case True
  then show ?thesis
    by (simp add: obj_put_def map_of_replace_same map_of_replace_other)
next
  case False
  then have none: "map_of obj k = None" by (simp add: map_of_eq_None_iff)
  show ?thesis
  proof (cases "array_index k")
    case None
    with False none assms show ?thesis
      by (simp add: obj_put_def map_add_def split: option.splits)
  next
    case (Some n)
    with False assms show ?thesis by (simp add: obj_put_def map_of_insert_index)
  qed
qed

lemma set_obj_put_subset: "set (obj_put obj k v) \<subseteq> insert (k, v) (set obj)"
  by (auto simp: obj_put_def set_insert_index split: option.splits if_splits)


lemma distinct_insert_index:
  "distinct (map fst (insert_index n e obj)) = distinct (map fst (e # obj))"
proof -
  have "mset (map fst (insert_index n e obj)) = mset (map fst (e # obj))"
    by (simp add: mset_insert_index)
  then show ?thesis by (rule mset_eq_imp_distinct_iff)
qed

lemma distinct_obj_put:
  assumes "distinct (map fst obj)"
  shows "distinct (map fst (obj_put obj k v))"
proof (cases "k \<in> set (map fst obj)")
  case True
  then have "obj_put obj k v = map (\<lambda>(k', v'). if k' = k then (k', v) else (k', v')) obj"
    by (simp add: obj_put_def)
  with assms show ?thesis by (simp only: keys_replace)
next
  case False
  with assms show ?thesis
    by (cases "array_index k") (auto simp: obj_put_def distinct_insert_index)
qed





section \<open>The flat file map of \<open>createFileTree\<close>\<close>

lemma processNode_invariant:
  assumes step: "\<And>ft k s. I ft \<Longrightarrow> I (obj_put ft k (JPrim (PStr s)))"
  shows "I ft \<Longrightarrow> I (processNode v p ft)"
    and "I ft \<Longrightarrow> I (processNode_items xs i p ft)"
    and "I ft \<Longrightarrow> I (processNode_entries kvs p ft)"
proof (induction v p ft and xs i p ft and kvs p ft
    rule: processNode_processNode_items_processNode_entries.induct)
  case (5 item rest index currentPath fileTree)
  then show ?case by (cases item) (simp_all add: step Let_def)
next
  case (7 key "value" rest currentPath fileTree)
  then show ?case by (cases "value") (simp_all add: step Let_def)
qed (simp_all add: step)

lemma flat_files_obj_put: "flat_files ft \<Longrightarrow> flat_files (obj_put ft k (JPrim (PStr s)))"
  using set_obj_put_subset [of ft k "JPrim (PStr s)"]
  by (auto simp: flat_files_def distinct_obj_put list_all_iff)

lemma getFilePaths_flat:
  "list_all (\<lambda>(k, v). \<not> isDirectory v) ft \<Longrightarrow> getFilePaths_forEach ft [] = map fst ft"
  by (induction ft "[] :: jstring" rule: getFilePaths_forEach.induct) (auto simp: join_path_def)

section \<open>The trim of \<open>sanitizeFilename\<close>\<close>

text \<open>After the replacements no white space is left, so the trim returns its argument.\<close>

lemma underscore_not_space: "\<not> is_space underscore"
  by (simp add: is_space_def underscore_def)

lemma replace_whitespace_no_space: "c \<in> set (replace_whitespace s) \<Longrightarrow> \<not> is_space c"
  by (induction s rule: replace_whitespace.induct) (auto simp: underscore_not_space split: if_splits)

lemma replace_underscores_subset: "c \<in> set (replace_underscores s) \<Longrightarrow> c \<in> set s"
  by (induction s rule: replace_underscores.induct) (auto split: if_splits dest: set_dropWhileD)

lemma trim_no_space: "\<forall>c \<in> set s. \<not> is_space c \<Longrightarrow> trim s = s"
proof -
  assume a: "\<forall>c \<in> set s. \<not> is_space c"
  have "dropWhile is_space xs = xs" if "\<forall>c \<in> set xs. \<not> is_space c" for xs
    using that by (cases xs) simp_all
  from this [of s] this [of "rev s"] a show ?thesis by (simp add: trim_def)
qed

lemma sanitizeFilename_trim_removes_nothing:
  "sanitizeFilename filename = replace_underscores (replace_whitespace (replace_reserved filename))"
  unfolding sanitizeFilename_def
  by (rule trim_no_space) (blast dest: replace_underscores_subset replace_whitespace_no_space)

section \<open>One pass of \<open>sortTree\<close>\<close>












section \<open>Files as lists of segments\<close>

lemma getFilePaths_leaves:
  "getFilePaths_forEach kvs base = map (foldl join_path base) (leaves kvs)"
  by (induction kvs base rule: getFilePaths_forEach.induct) (simp_all add: comp_def)

lemma leaves_nonempty: "l \<in> set (leaves kvs) \<Longrightarrow> l \<noteq> []"
  by (induction kvs rule: leaves.induct) auto

lemma leaves_hd_key: "l \<in> set (leaves kvs) \<Longrightarrow> hd l \<in> set (map fst kvs)"
  by (induction kvs rule: leaves.induct) auto

section \<open>Path strings and their segments\<close>

lemma split_on_no_sep: "d \<notin> set b \<Longrightarrow> split_on d b = [b]"
  by (induction b) auto

lemma split_on_sep: "d \<notin> set b \<Longrightarrow> split_on d (b @ d # r) = b # split_on d r"
  by (induction b) auto

lemma foldl_join_path:
  "b \<noteq> [] \<Longrightarrow> foldl join_path b segs = b @ concat (map ((#) slash) segs)"
  by (induction segs arbitrary: b) (simp_all add: join_path_def)

lemma split_on_joined:
  "slash \<notin> set b \<Longrightarrow> \<forall>s \<in> set segs. slash \<notin> set s \<Longrightarrow>
   split_on slash (b @ concat (map ((#) slash) segs)) = b # segs"
  by (induction segs arbitrary: b) (simp_all add: split_on_no_sep split_on_sep)

lemma pathParts_joined:
  assumes "segs \<noteq> []" and "\<forall>s \<in> set segs. valid_name s"
  shows "foldl join_path [] segs \<noteq> [] \<and> pathParts (foldl join_path [] segs) = segs"
proof -
  from assms(1) obtain s ss where segs: "segs = s # ss" by (cases segs) auto
  with assms(2) have s: "s \<noteq> []" "slash \<notin> set s" and ss: "\<forall>x \<in> set ss. slash \<notin> set x"
    and ne: "\<forall>x \<in> set segs. x \<noteq> []"
    by (auto simp: valid_name_def)
  have eq: "foldl join_path [] segs = s @ concat (map ((#) slash) ss)"
    using s by (simp add: segs join_path_def foldl_join_path)
  have "split_on slash (foldl join_path [] segs) = segs"
    unfolding eq using s ss by (simp add: split_on_joined segs)
  with ne eq s show ?thesis
    by (simp add: pathParts_def filter_id_conv)
qed

section \<open>The files of a well-named tree\<close>

lemma names_ok_Cons:
  "names_ok (JObj ((k, v) # rest)) =
     (k \<notin> set (map fst rest) \<and> valid_name k \<and> names_ok v \<and> names_ok (JObj rest))"
  by auto

lemma leaves_Cons_dir:
  "set (leaves ((k, JObj sub) # rest)) = (#) k ` set (leaves sub) \<union> set (leaves rest)"
  by simp

lemma leaves_Cons_file:
  "\<not> isDirectory v \<Longrightarrow> set (leaves ((k, v) # rest)) = insert [k] (set (leaves rest))"
  by (cases v) simp_all

lemma leaves_valid:
  "names_ok (JObj kvs) \<Longrightarrow> l \<in> set (leaves kvs) \<Longrightarrow> \<forall>s \<in> set l. valid_name s"
proof (induction kvs arbitrary: l rule: leaves.induct)
  case 1
  then show ?case by simp
next
  case (2 key kvs rest)
  from "2.prems"(1) have k: "valid_name key" and sub: "names_ok (JObj kvs)"
    and rest: "names_ok (JObj rest)"
    unfolding names_ok_Cons by simp_all
  from "2.prems"(2) consider l' where "l = key # l'" "l' \<in> set (leaves kvs)"
    | "l \<in> set (leaves rest)"
    unfolding leaves_Cons_dir by blast
  then show ?case
  proof cases
    case 1
    from sub 1(2) have "\<forall>s \<in> set l'. valid_name s" by (rule "2.IH"(1))
    with k 1(1) show ?thesis by simp
  next
    case 2
    with rest show ?thesis by (rule "2.IH"(2))
  qed
next
  case (4 key p rest)
  from "4.prems"(1) have k: "valid_name key" and rest: "names_ok (JObj rest)"
    unfolding names_ok_Cons by simp_all
  from "4.prems"(2) consider "l = [key]" | "l \<in> set (leaves rest)"
    by (auto simp: leaves_Cons_file)
  then show ?case
  proof cases
    case 1
    with k show ?thesis by simp
  next
    case 2
    with rest show ?thesis by (rule "4.IH")
  qed
next
  case (3 key xs rest)
  from "3.prems"(1) have k: "valid_name key" and rest: "names_ok (JObj rest)"
    unfolding names_ok_Cons by simp_all
  from "3.prems"(2) consider "l = [key]" | "l \<in> set (leaves rest)"
    by (auto simp: leaves_Cons_file)
  then show ?case
  proof cases
    case 1
    with k show ?thesis by simp
  next
    case 2
    with rest show ?thesis by (rule "3.IH")
  qed
qed

lemma antichain_file:
  assumes B: "antichain B" and hd: "\<forall>l \<in> B. l \<noteq> [] \<and> hd l \<noteq> k"
  shows "antichain (insert [k] B)"
  unfolding antichain_def
proof (intro ballI impI)
  fix a b assume a: "a \<in> insert [k] B" and b: "b \<in> insert [k] B" and p: "prefix a b"
  show "a = b"
  proof (cases "a = [k]")
    case True
    with p obtain b' where "b = k # b'" by (cases b) auto
    with hd b have "b = [k]" by auto
    with True show ?thesis by simp
  next
    case False
    with a have aB: "a \<in> B" by simp
    with hd obtain x a' where a': "a = x # a'" "x \<noteq> k" by (cases a) auto
    with p b have "b \<in> B" by auto
    with B aB p show ?thesis by (simp add: antichain_def)
  qed
qed

lemma antichain_dir:
  assumes A: "antichain A" and B: "antichain B" and hd: "\<forall>l \<in> B. l \<noteq> [] \<and> hd l \<noteq> k"
  shows "antichain ((#) k ` A \<union> B)"
  unfolding antichain_def
proof (intro ballI impI)
  fix a b assume a: "a \<in> (#) k ` A \<union> B" and b: "b \<in> (#) k ` A \<union> B" and p: "prefix a b"
  show "a = b"
  proof (cases "a \<in> B")
    case True
    with hd obtain x a' where a': "a = x # a'" "x \<noteq> k" by (cases a) auto
    with p b have "b \<in> B" by auto
    with B True p show ?thesis by (simp add: antichain_def)
  next
    case False
    with a obtain a' where a': "a = k # a'" "a' \<in> A" by auto
    with p obtain b' where b': "b = k # b'" "prefix a' b'" by (cases b) auto
    with hd b have "b' \<in> A" by auto
    with A a' b' show ?thesis by (simp add: antichain_def)
  qed
qed

lemma leaves_fresh:
  "k \<notin> set (map fst kvs) \<Longrightarrow> \<forall>l \<in> set (leaves kvs). l \<noteq> [] \<and> hd l \<noteq> k"
  using leaves_nonempty leaves_hd_key by blast

lemma leaves_antichain: "names_ok (JObj kvs) \<Longrightarrow> antichain (set (leaves kvs))"
proof (induction kvs rule: leaves.induct)
  case 1
  then show ?case by (simp add: antichain_def)
next
  case (2 key kvs rest)
  from "2.prems" have fresh: "key \<notin> set (map fst rest)" and sub: "names_ok (JObj kvs)"
    and rest: "names_ok (JObj rest)"
    unfolding names_ok_Cons by simp_all
  from sub have "antichain (set (leaves kvs))" by (rule "2.IH"(1))
  moreover from rest have "antichain (set (leaves rest))" by (rule "2.IH"(2))
  ultimately show ?case
    unfolding leaves_Cons_dir using leaves_fresh [OF fresh] by (rule antichain_dir)
next
  case (4 key p rest)
  from "4.prems" have fresh: "key \<notin> set (map fst rest)" and rest: "names_ok (JObj rest)"
    unfolding names_ok_Cons by simp_all
  from rest have "antichain (set (leaves rest))" by (rule "4.IH")
  then have "antichain (insert [key] (set (leaves rest)))"
    using leaves_fresh [OF fresh] by (rule antichain_file)
  then show ?case by (simp add: leaves_Cons_file)
next
  case (3 key xs rest)
  from "3.prems" have fresh: "key \<notin> set (map fst rest)" and rest: "names_ok (JObj rest)"
    unfolding names_ok_Cons by simp_all
  from rest have "antichain (set (leaves rest))" by (rule "3.IH")
  then have "antichain (insert [key] (set (leaves rest)))"
    using leaves_fresh [OF fresh] by (rule antichain_file)
  then show ?case by (simp add: leaves_Cons_file)
qed

section \<open>The files after an assignment\<close>

lemma set_replace:
  assumes "k \<in> fst ` set obj"
  shows "set (map (\<lambda>(k', v'). if k' = k then (k', v) else (k', v')) obj)
     = insert (k, v) {e \<in> set obj. fst e \<noteq> k}"
proof -
  define f where "f = (\<lambda>e. if fst e = k then (fst e, v) else e)"
  have f: "(\<lambda>(k', v'). if k' = k then (k', v) else (k', v')) = f"
    by (auto simp: f_def fun_eq_iff)
  have "f ` set obj = insert (k, v) {e \<in> set obj. fst e \<noteq> k}"
  proof (intro set_eqI iffI)
    fix x assume "x \<in> f ` set obj"
    then obtain e where "e \<in> set obj" "x = f e" by blast
    then show "x \<in> insert (k, v) {e \<in> set obj. fst e \<noteq> k}"
      by (cases "fst e = k") (auto simp: f_def)
  next
    fix x assume "x \<in> insert (k, v) {e \<in> set obj. fst e \<noteq> k}"
    then consider "x = (k, v)" | "x \<in> set obj" "fst x \<noteq> k" by blast
    then show "x \<in> f ` set obj"
    proof cases
      case 1
      from assms obtain e where e: "e \<in> set obj" "fst e = k" by auto
      then have "f e = (k, v)" by (simp add: f_def)
      with e(1) 1 show ?thesis by (metis imageI)
    next
      case 2
      then have "f x = x" by (simp add: f_def)
      with 2(1) show ?thesis by (metis imageI)
    qed
  qed
  then show ?thesis by (simp add: f)
qed

lemma set_obj_put:
  assumes "k \<noteq> proto"
  shows "set (obj_put obj k v) = insert (k, v) {e \<in> set obj. fst e \<noteq> k}"
proof (cases "k \<in> set (map fst obj)")
  case True
  then have "k \<in> fst ` set obj" by simp
  then have "set (map (\<lambda>(k', v'). if k' = k then (k', v) else (k', v')) obj)
      = insert (k, v) {e \<in> set obj. fst e \<noteq> k}"
    by (rule set_replace)
  with True show ?thesis by (simp add: obj_put_def del: set_map)
next
  case False
  then have "{e \<in> set obj. fst e \<noteq> k} = set obj" by force
  with False assms show ?thesis
    by (cases "array_index k") (simp_all add: obj_put_def set_insert_index)
qed

lemma obj_put_empty: "k \<noteq> proto \<Longrightarrow> obj_put [] k v = [(k, v)]"
  by (simp add: obj_put_def split: option.split)

section \<open>The leaves of a tree under construction\<close>

lemma getFilePaths_file:
  "\<not> isDirectory v \<Longrightarrow>
   getFilePaths_forEach ((k, v) # rest) base = join_path base k # getFilePaths_forEach rest base"
  by (cases v) simp_all

lemma getFilePaths_built_aux:
  assumes "\<not> isDirectory c"
  shows "\<forall>sub. b = Folder sub \<longrightarrow>
      (\<forall>base. getFilePaths_forEach (built_entries c sub) base
         = map (foldl join_path base) (built_leaves sub))"
    and "\<forall>base. getFilePaths_forEach (built_entries c es) base
         = map (foldl join_path base) (built_leaves es)"
proof (induction b and es rule: built_paths_built_leaves.induct)
  case 1
  show ?case by simp
next
  case (2 es)
  then show ?case by simp
next
  case 3
  show ?case by simp
next
  case (4 key b rest)
  show ?case
  proof (cases b)
    case Content
    with 4 assms show ?thesis by (simp add: getFilePaths_file)
  next
    case (Folder sub)
    with 4 show ?thesis by (simp add: comp_def)
  qed
qed

lemma getFilePaths_built:
  "\<not> isDirectory c \<Longrightarrow>
   getFilePaths_forEach (built_entries c es) base = map (foldl join_path base) (built_leaves es)"
  using getFilePaths_built_aux(2) [of c es] by simp

lemma built_leaves_mem:
  "l \<in> set (built_leaves es) \<longleftrightarrow> (\<exists>(k, b) \<in> set es. \<exists>r \<in> set (built_paths b). l = k # r)"
  by (induction es) auto

lemma built_leaves_nonempty: "l \<in> set (built_leaves es) \<Longrightarrow> l \<noteq> []"
  unfolding built_leaves_mem by auto

lemma built_leaves_hd_key: "l \<in> set (built_leaves es) \<Longrightarrow> hd l \<in> set (map fst es)"
  unfolding built_leaves_mem by force

text \<open>An assignment replaces the leaves below its key.\<close>

lemma built_leaves_obj_put:
  assumes "k \<noteq> proto"
  shows "set (built_leaves (obj_put es k b))
      = {l \<in> set (built_leaves es). hd l \<noteq> k} \<union> (#) k ` set (built_paths b)"
proof (rule set_eqI)
  fix l
  note put = set_obj_put [OF assms, of es b]
  show "l \<in> set (built_leaves (obj_put es k b))
      \<longleftrightarrow> l \<in> {l \<in> set (built_leaves es). hd l \<noteq> k} \<union> (#) k ` set (built_paths b)"
    (is "?L \<longleftrightarrow> ?R")
  proof
    assume ?L
    then obtain k' b' r where e: "(k', b') \<in> set (obj_put es k b)" "r \<in> set (built_paths b')"
      and l: "l = k' # r"
      unfolding built_leaves_mem [of l "obj_put es k b"] by blast
    from e(1) consider "(k', b') = (k, b)" | "(k', b') \<in> set es" "k' \<noteq> k"
      unfolding put by auto
    then show ?R
    proof cases
      case 1
      with e(2) l show ?thesis by simp
    next
      case 2
      with e(2) l have "l \<in> set (built_leaves es)"
        unfolding built_leaves_mem [of l es] by blast
      with 2(2) l show ?thesis by simp
    qed
  next
    assume ?R
    then consider r where "r \<in> set (built_paths b)" "l = k # r"
      | "l \<in> set (built_leaves es)" "hd l \<noteq> k"
      by blast
    then show ?L
    proof cases
      case 1
      have "(k, b) \<in> set (obj_put es k b)" unfolding put by simp
      with 1 show ?thesis unfolding built_leaves_mem [of l "obj_put es k b"] by blast
    next
      case 2
      from 2(1) obtain k' b' r where e: "(k', b') \<in> set es" "r \<in> set (built_paths b')"
        and l: "l = k' # r"
        unfolding built_leaves_mem [of l es] by blast
      with 2(2) have "k' \<noteq> k" by simp
      with e(1) have "(k', b') \<in> set (obj_put es k b)" unfolding put by simp
      with e(2) l show ?thesis unfolding built_leaves_mem [of l "obj_put es k b"] by blast
    qed
  qed
qed

lemma built_leaves_at_key_None:
  assumes "map_of es k = None" and "l \<in> set (built_leaves es)"
  shows "hd l \<noteq> k"
proof -
  from assms(1) have "k \<notin> set (map fst es)" by (simp add: map_of_eq_None_iff)
  with built_leaves_hd_key [OF assms(2)] show ?thesis by auto
qed

lemma built_leaves_at_key_Some:
  assumes dist: "distinct (map fst es)" and look: "map_of es k = Some b"
  shows "l \<in> set (built_leaves es) \<and> hd l = k \<longleftrightarrow> l \<in> (#) k ` set (built_paths b)"
    (is "?L \<longleftrightarrow> ?R")
proof
  assume ?L
  then obtain k' b' r where e: "(k', b') \<in> set es" "r \<in> set (built_paths b')"
    and l: "l = k' # r" and "hd l = k"
    unfolding built_leaves_mem [of l es] by blast
  then have k': "k' = k" by simp
  from dist e(1) have "map_of es k' = Some b'" by (rule map_of_is_SomeI)
  with k' look have "b' = b" by simp
  with e(2) l k' show ?R by simp
next
  assume ?R
  then obtain r where r: "r \<in> set (built_paths b)" "l = k # r" by blast
  from look have "(k, b) \<in> set es" by (rule map_of_SomeD)
  with r show ?L unfolding built_leaves_mem [of l es] by auto
qed

section \<open>Unique names in a tree under construction\<close>

lemma built_distinct_iff:
  "built_distinct es \<longleftrightarrow>
     distinct (map fst es) \<and> (\<forall>(k, b) \<in> set es. built_distinct_keys b)"
  by (induction es) (force simp: image_iff)+

lemma built_distinct_obj_put:
  assumes "built_distinct es" and "built_distinct_keys b"
  shows "built_distinct (obj_put es k b)"
  using assms set_obj_put_subset [of es k b]
  unfolding built_distinct_iff by (auto simp: distinct_obj_put)

lemma built_distinct_lookup:
  assumes "built_distinct es" and "map_of es k = Some (Folder sub)"
  shows "built_distinct sub"
proof -
  from assms(1) have "\<forall>(k, b) \<in> set es. built_distinct_keys b"
    by (simp add: built_distinct_iff)
  moreover from assms(2) have "(k, Folder sub) \<in> set es" by (rule map_of_SomeD)
  ultimately have "built_distinct_keys (Folder sub)" by blast
  then show ?thesis by simp
qed

section \<open>The files after writing one path\<close>

lemma parts_empty:
  assumes "segs \<noteq> []" and "proto \<notin> set segs"
  shows "\<exists>cur'. createTreeFromPaths_parts c [] segs = Some cur' \<and> built_distinct cur'
      \<and> set (built_leaves cur') = {segs}"
  using assms
proof (induction segs)
  case Nil
  then show ?case by simp
next
  case (Cons p ps)
  from Cons.prems have p: "p \<noteq> proto" by auto
  show ?case
  proof (cases ps)
    case Nil
    with p show ?thesis by (simp add: obj_put_empty)
  next
    case (Cons q qs)
    with Cons.IH Cons.prems obtain sub where sub: "createTreeFromPaths_parts c [] ps = Some sub"
      "built_distinct sub" "set (built_leaves sub) = {ps}"
      by auto
    with Cons p show ?thesis by (simp add: obj_put_empty)
  qed
qed

text \<open>
  Writing a path of which no leaf is a proper prefix: the leaves that the path is a prefix
  of go away with the node they are below, and the path is a leaf.
\<close>

lemma parts_leaves:
  assumes "built_distinct cur" and "segs \<noteq> []" and "proto \<notin> set segs"
    and "\<forall>l \<in> set (built_leaves cur). \<not> strict_prefix l segs"
  shows "\<exists>cur'. createTreeFromPaths_parts c cur segs = Some cur' \<and> built_distinct cur'
      \<and> set (built_leaves cur') = {l \<in> set (built_leaves cur). \<not> prefix segs l} \<union> {segs}"
  using assms
proof (induction c cur segs rule: createTreeFromPaths_parts.induct)
  case (1 c cur)
  then show ?case by simp
next
  case (2 c cur part)
  then have p: "part \<noteq> proto" by simp
  have "set (built_leaves (obj_put cur part Content))
      = {l \<in> set (built_leaves cur). hd l \<noteq> part} \<union> (#) part ` set (built_paths Content)"
    using p by (rule built_leaves_obj_put)
  also have "\<dots> = {l \<in> set (built_leaves cur). \<not> prefix [part] l} \<union> {[part]}"
  proof -
    have "hd l \<noteq> part \<longleftrightarrow> \<not> prefix [part] l" if "l \<in> set (built_leaves cur)" for l
      using built_leaves_nonempty [OF that] by (cases l) auto
    then show ?thesis by auto
  qed
  finally have "set (built_leaves (obj_put cur part Content))
      = {l \<in> set (built_leaves cur). \<not> prefix [part] l} \<union> {[part]}" .
  moreover from "2.prems"(1) have "built_distinct (obj_put cur part Content)"
    by (rule built_distinct_obj_put) simp
  ultimately show ?case using p by simp
next
  case (3 c cur part v va)
  let ?rest = "v # va"
  from "3.prems"(3) have p: "part \<noteq> proto" and pr: "proto \<notin> set ?rest" by auto
  from "3.prems"(1) have dist: "distinct (map fst cur)" by (simp add: built_distinct_iff)
  have branch: "\<exists>cur'. createTreeFromPaths_parts c cur (part # ?rest) = Some cur' \<and> built_distinct cur'
      \<and> set (built_leaves cur') = {l \<in> set (built_leaves cur). \<not> prefix (part # ?rest) l} \<union> {part # ?rest}"
    if run: "createTreeFromPaths_parts c cur (part # ?rest) = Some (obj_put cur part (Folder sub'))"
      and ok: "built_distinct sub'"
      and below: "(#) part ` set (built_leaves sub')
        = {l \<in> set (built_leaves cur). hd l = part \<and> \<not> prefix (part # ?rest) l} \<union> {part # ?rest}"
    for sub'
  proof -
    have other: "\<not> prefix (part # ?rest) l" if "hd l \<noteq> part" for l
      using that by (cases l) auto
    have "set (built_leaves (obj_put cur part (Folder sub')))
        = {l \<in> set (built_leaves cur). hd l \<noteq> part} \<union> (#) part ` set (built_paths (Folder sub'))"
      using p by (rule built_leaves_obj_put)
    also have "\<dots> = {l \<in> set (built_leaves cur). hd l \<noteq> part}
        \<union> ({l \<in> set (built_leaves cur). hd l = part \<and> \<not> prefix (part # ?rest) l} \<union> {part # ?rest})"
      by (simp only: built_paths.simps below)
    also have "\<dots> = {l \<in> set (built_leaves cur). \<not> prefix (part # ?rest) l} \<union> {part # ?rest}"
      using other by blast
    finally have "set (built_leaves (obj_put cur part (Folder sub')))
        = {l \<in> set (built_leaves cur). \<not> prefix (part # ?rest) l} \<union> {part # ?rest}" .
    moreover from "3.prems"(1) have "built_distinct (obj_put cur part (Folder sub'))"
      by (rule built_distinct_obj_put) (simp add: ok)
    ultimately show ?thesis using run by simp
  qed
  show ?case
  proof (cases "map_of cur part")
    case None
    obtain sub' where sub': "createTreeFromPaths_parts c [] ?rest = Some sub'"
      "built_distinct sub'" "set (built_leaves sub') = {?rest}"
      using parts_empty [of ?rest c] pr by auto
    have none: "{l \<in> set (built_leaves cur). hd l = part \<and> \<not> prefix (part # ?rest) l} = {}"
      using built_leaves_at_key_None [OF None] by blast
    show ?thesis
    proof (rule branch)
      from None sub'(1) p
      show "createTreeFromPaths_parts c cur (part # ?rest) = Some (obj_put cur part (Folder sub'))"
        by simp
      show "built_distinct sub'" by fact
      show "(#) part ` set (built_leaves sub')
          = {l \<in> set (built_leaves cur). hd l = part \<and> \<not> prefix (part # ?rest) l} \<union> {part # ?rest}"
        unfolding none sub'(3) by simp
    qed
  next
    case (Some b)
    show ?thesis
    proof (cases b)
      case Content
      from dist Some have "[part] \<in> set (built_leaves cur) \<and> hd [part] = part"
        unfolding built_leaves_at_key_Some [OF dist Some] Content by simp
      then have "[part] \<in> set (built_leaves cur)" by simp
      with "3.prems"(4) have "\<not> strict_prefix [part] (part # ?rest)" by blast
      then show ?thesis by simp
    next
      case (Folder sub)
      from "3.prems"(1) Some Folder have dsub: "built_distinct sub"
        by (auto intro: built_distinct_lookup)
      have at: "l \<in> set (built_leaves cur) \<and> hd l = part \<longleftrightarrow> l \<in> (#) part ` set (built_leaves sub)" for l
        using built_leaves_at_key_Some [OF dist Some, of l] Folder by simp
      have nosub: "\<forall>l \<in> set (built_leaves sub). \<not> strict_prefix l ?rest"
      proof
        fix l assume "l \<in> set (built_leaves sub)"
        then have "part # l \<in> set (built_leaves cur)" using at [of "part # l"] by simp
        with "3.prems"(4) have "\<not> strict_prefix (part # l) (part # ?rest)" by blast
        then show "\<not> strict_prefix l ?rest" by simp
      qed
      from p Some Folder dsub pr nosub
      have "\<exists>sub'. createTreeFromPaths_parts c sub ?rest = Some sub' \<and> built_distinct sub'
          \<and> set (built_leaves sub') = {l \<in> set (built_leaves sub). \<not> prefix ?rest l} \<union> {?rest}"
        by (intro "3.IH") simp_all
      then obtain sub' where sub': "createTreeFromPaths_parts c sub ?rest = Some sub'"
        "built_distinct sub'"
        "set (built_leaves sub') = {l \<in> set (built_leaves sub). \<not> prefix ?rest l} \<union> {?rest}"
        by blast
      have old: "{l \<in> set (built_leaves cur). hd l = part \<and> \<not> prefix (part # ?rest) l}
          = (#) part ` {l \<in> set (built_leaves sub). \<not> prefix ?rest l}"
      proof (rule set_eqI)
        fix l
        show "l \<in> {l \<in> set (built_leaves cur). hd l = part \<and> \<not> prefix (part # ?rest) l}
            \<longleftrightarrow> l \<in> (#) part ` {l \<in> set (built_leaves sub). \<not> prefix ?rest l}"
          using at [of l] by auto
      qed
      show ?thesis
      proof (rule branch)
        from Some Folder sub'(1) p
        show "createTreeFromPaths_parts c cur (part # ?rest) = Some (obj_put cur part (Folder sub'))"
          by simp
        show "built_distinct sub'" by fact
        show "(#) part ` set (built_leaves sub')
            = {l \<in> set (built_leaves cur). hd l = part \<and> \<not> prefix (part # ?rest) l} \<union> {part # ?rest}"
          unfolding old sub'(3) by (simp only: image_Un image_insert image_empty)
      qed
    qed
  qed
qed

section \<open>The files after writing a list of paths\<close>

lemma leaves_forEach:
  assumes "built_distinct tree"
    and "\<forall>segs \<in> set segss. segs \<noteq> [] \<and> (\<forall>s \<in> set segs. valid_name s)"
    and "antichain (set (built_leaves tree) \<union> set segss)"
  shows "\<exists>tree'. createTreeFromPaths_forEach c
           (map (\<lambda>p. JPrim (PStr p)) (map (foldl join_path []) segss)) tree = Some tree'
      \<and> set (built_leaves tree') = set (built_leaves tree) \<union> set segss"
  using assms
proof (induction segss arbitrary: tree)
  case Nil
  then show ?case by simp
next
  case (Cons s segss)
  from Cons.prems(2) have s: "s \<noteq> []" and valid: "\<forall>x \<in> set s. valid_name x" by simp_all
  from valid have np: "proto \<notin> set s" by (auto simp: valid_name_def)
  from s valid have joined: "foldl join_path [] s \<noteq> [] \<and> pathParts (foldl join_path [] s) = s"
    by (rule pathParts_joined)
  have anti: "l = m" if "l \<in> set (built_leaves tree) \<union> {s}" "m \<in> set (built_leaves tree) \<union> {s}"
    "prefix l m" for l m
    using that Cons.prems(3) unfolding antichain_def by auto
  have nostrict: "\<forall>l \<in> set (built_leaves tree). \<not> strict_prefix l s"
    using anti [of _ s] by (auto simp: strict_prefix_def)
  from Cons.prems(1) s np nostrict
  obtain tree1 where tree1: "createTreeFromPaths_parts c tree s = Some tree1" "built_distinct tree1"
    "set (built_leaves tree1) = {l \<in> set (built_leaves tree). \<not> prefix s l} \<union> {s}"
    using parts_leaves [of tree s c] by blast
  have "{l \<in> set (built_leaves tree). \<not> prefix s l} \<union> {s} = set (built_leaves tree) \<union> {s}"
    using anti [of s] by blast
  with tree1(3) have leaves1: "set (built_leaves tree1) = set (built_leaves tree) \<union> {s}" by simp
  have "\<exists>tree'. createTreeFromPaths_forEach c
           (map (\<lambda>p. JPrim (PStr p)) (map (foldl join_path []) segss)) tree1 = Some tree'
      \<and> set (built_leaves tree') = set (built_leaves tree1) \<union> set segss"
  proof (rule Cons.IH)
    show "built_distinct tree1" by fact
    from Cons.prems(2) show "\<forall>segs \<in> set segss. segs \<noteq> [] \<and> (\<forall>s \<in> set segs. valid_name s)"
      by simp
    from Cons.prems(3) show "antichain (set (built_leaves tree1) \<union> set segss)"
      unfolding leaves1 antichain_def by auto
  qed
  then obtain tree' where tree': "createTreeFromPaths_forEach c
      (map (\<lambda>p. JPrim (PStr p)) (map (foldl join_path []) segss)) tree1 = Some tree'"
    "set (built_leaves tree') = set (built_leaves tree1) \<union> set segss"
    by blast
  from joined tree1(1) tree'(1)
  have "createTreeFromPaths_forEach c
      (map (\<lambda>p. JPrim (PStr p)) (map (foldl join_path []) (s # segss))) tree = Some tree'"
    by simp
  moreover from tree'(2) leaves1 have "set (built_leaves tree') = set (built_leaves tree) \<union> set (s # segss)"
    by auto
  ultimately show ?case by blast
qed

section \<open>The node at the path written last\<close>

lemma parts_node:
  assumes "segs \<noteq> []" and "proto \<notin> set segs"
    and "createTreeFromPaths_parts c cur segs = Some cur'"
  shows "built_node (Folder cur') segs = Some Content"
  using assms
proof (induction c cur segs arbitrary: cur' rule: createTreeFromPaths_parts.induct)
  case (1 c cur)
  then show ?case by simp
next
  case (2 c cur part)
  then show ?case by (auto simp: map_of_obj_put)
next
  case (3 c cur part v va)
  let ?rest = "v # va"
  from "3.prems"(2) have p: "part \<noteq> proto" and pr: "proto \<notin> set ?rest" by auto
  have step: "built_node (Folder (obj_put cur part (Folder sub'))) (part # ?rest) = Some Content"
    if "built_node (Folder sub') ?rest = Some Content" for sub'
    using that p by (simp add: map_of_obj_put)
  show ?case
  proof (cases "map_of cur part")
    case None
    with "3.prems"(3) p obtain sub' where sub': "createTreeFromPaths_parts c [] ?rest = Some sub'"
      "cur' = obj_put cur part (Folder sub')"
      by auto
    from p None pr sub'(1) have "built_node (Folder sub') ?rest = Some Content"
      by (intro "3.IH") simp_all
    with sub'(2) show ?thesis by (simp only: step)
  next
    case (Some b)
    show ?thesis
    proof (cases b)
      case Content
      with "3.prems"(3) p Some obtain sub' where sub': "createTreeFromPaths_parts c [] ?rest = Some sub'"
        "cur' = obj_put cur part (Folder sub')" "\<not> (\<not> falsy c \<and> typeof_object c)"
        by (auto split: if_splits)
      from p Some Content sub'(3) pr sub'(1) have "built_node (Folder sub') ?rest = Some Content"
        by (intro "3.IH") simp_all
      with sub'(2) show ?thesis by (simp only: step)
    next
      case (Folder sub)
      with "3.prems"(3) p Some obtain sub' where sub': "createTreeFromPaths_parts c sub ?rest = Some sub'"
        "cur' = obj_put cur part (Folder sub')"
        by auto
      from p Some Folder pr sub'(1) have "built_node (Folder sub') ?rest = Some Content"
        by (intro "3.IH") simp_all
      with sub'(2) show ?thesis by (simp only: step)
    qed
  qed
qed

lemma map_of_built_entries:
  "map_of (built_entries c es) k = map_option (built_value c) (map_of es k)"
  by (induction es) auto

lemma own_node_built:
  "built_node b segs = Some b' \<Longrightarrow> own_node (built_value c b) segs = Some (built_value c b')"
proof (induction b segs rule: built_node.induct)
  case (1 b)
  then show ?case by simp
next
  case (2 es part rest)
  then show ?case by (auto simp: map_of_built_entries split: option.splits)
next
  case (3 part rest)
  then show ?case by simp
qed

lemma forEach_snoc:
  "createTreeFromPaths_forEach c (ps @ [p]) tree =
     (case createTreeFromPaths_forEach c ps tree of
        None \<Rightarrow> None
      | Some tree' \<Rightarrow> createTreeFromPaths_path c p tree')"
  by (induction ps arbitrary: tree) (auto split: option.splits)

text \<open>With a primitive content and no segment \<^verbatim>\<open>__proto__\<close> the construction stays in the tree.\<close>

lemma parts_not_None:
  "proto \<notin> set segs \<Longrightarrow> createTreeFromPaths_parts (JPrim pr) cur segs \<noteq> None"
proof (induction "JPrim pr" cur segs rule: createTreeFromPaths_parts.induct)
  case (1 cur)
  then show ?case by simp
next
  case (2 cur part)
  then show ?case by simp
next
  case (3 cur part v va)
  then show ?case by (cases pr) (auto split: option.splits built.splits)
qed

lemma parts_defined:
  "proto \<notin> set segs \<Longrightarrow> \<exists>cur'. createTreeFromPaths_parts (JPrim pr) cur segs = Some cur'"
  using parts_not_None [of segs pr cur] by auto

lemma path_defined:
  "proto_free q \<Longrightarrow> \<exists>tree'. createTreeFromPaths_path (JPrim pr) q tree = Some tree'"
proof (cases q)
  case (JPrim x)
  assume "proto_free q"
  with JPrim show ?thesis by (cases x) (simp_all add: parts_defined)
qed simp_all

lemma forEach_defined:
  "\<forall>q \<in> set ps. proto_free q \<Longrightarrow> createTreeFromPaths_forEach (JPrim pr) ps tree \<noteq> None"
proof (induction ps arbitrary: tree)
  case Nil
  then show ?case by simp
next
  case (Cons q ps)
  from Cons.prems have "proto_free q" by simp
  then obtain tree' where "createTreeFromPaths_path (JPrim pr) q tree = Some tree'"
    using path_defined [of q pr tree] by blast
  with Cons show ?case by simp
qed

section \<open>Statistics\<close>

text \<open>
  C1. For every tree, the statistics record has \<open>totalNodes\<close> equal to the number of files
  plus the number of directories, and its \<open>files\<close>, \<open>directories\<close> and \<open>depth\<close> fields are
  the results of \<open>countTreeFiles\<close>, \<open>countTreeDirectories\<close> and \<open>getTreeDepth\<close> on the
  same tree.
\<close>

theorem getTreeStats_fields:
  "totalNodes (getTreeStats t) = countTreeFiles t + countTreeDirectories t
   \<and> files (getTreeStats t) = countTreeFiles t
   \<and> directories (getTreeStats t) = countTreeDirectories t
   \<and> depth (getTreeStats t) = getTreeDepth t"
  by (simp add: getTreeStats_def)

section \<open>A scalar at the root\<close>

text \<open>
  C2, as stated: the bare string \<open>hello\<close> gives one file \<open>data.json\<close> holding the JSON
  text of the string. Neither converter does so.
\<close>

theorem root_scalar_not_json:
  "generateFileStructure (JPrim (PStr (js ''hello''))) []
     \<noteq> [(js ''data.json'', JSON_stringify (PStr (js ''hello'')))]
   \<and> createFileTree (JPrim (PStr (js ''hello''))) []
     \<noteq> JObj [(js ''data.json'', JPrim (PStr (JSON_stringify (PStr (js ''hello'')))))]"
  by (simp add: generateFileStructure_def createFileTree_def obj_put_def proto_def array_index_def
      is_digit_def js_def)

text \<open>
  C2, amended: for the bare string \<open>hello\<close> both converters produce exactly one file, whose
  path is \<open>data.txt\<close> and whose content is \<^verbatim>\<open>String(value)\<close>, the five characters
  \<open>hello\<close> without quotes.
\<close>

theorem root_scalar_txt:
  "generateFileStructure (JPrim (PStr (js ''hello''))) [] = [(js ''data.txt'', js ''hello'')]
   \<and> createFileTree (JPrim (PStr (js ''hello''))) []
     = JObj [(js ''data.txt'', JPrim (PStr (js ''hello'')))]"
  by (simp add: generateFileStructure_def createFileTree_def obj_put_def proto_def array_index_def
      is_digit_def js_def)

section \<open>Paths of a top-level array\<close>

text \<open>
  C3. The paths are to have no leading slash; the array branch of both converters joins
  the current path and the item name with a slash without testing for the empty path, as
  the object branch does. For the top-level array \<open>[1]\<close> both produce the path
  \<open>/item_0.txt\<close>; for the same array under the key \<open>a\<close> of an object the path is
  \<open>a/item_0.txt\<close>, the joined names.
\<close>

theorem top_level_array_leading_slash:
  "generateFileStructure (JArr [JPrim (PNum (js ''1''))]) [] = [(js ''/item_0.txt'', js ''1'')]
   \<and> createFileTree (JArr [JPrim (PNum (js ''1''))]) []
     = JObj [(js ''/item_0.txt'', JPrim (PStr (js ''1'')))]
   \<and> generateFileStructure (JObj [(js ''a'', JArr [JPrim (PNum (js ''1''))])]) []
     = [(js ''a/item_0.txt'', js ''1'')]
   \<and> createFileTree (JObj [(js ''a'', JArr [JPrim (PNum (js ''1''))])]) []
     = JObj [(js ''a/item_0.txt'', JPrim (PStr (js ''1'')))]"
  by (simp add: generateFileStructure_def createFileTree_def obj_put_def proto_def array_index_def
      is_digit_def js_def decimal.simps sanitizeFilename_def trim_def replace_reserved_def
      reserved_def is_space_def underscore_def)

section \<open>Key sanitization\<close>

text \<open>
  C4. The trim is the last step of \<open>sanitizeFilename\<close>, after every run of white space has
  become an underscore, so it removes nothing (\<open>sanitizeFilename_trim_removes_nothing\<close>):
  the input \<open>a\<close> between two spaces comes back as \<open>_a_\<close>, with the substituted underscores
  at both ends. The example of the claim, \<open>my:key name\<close>, does give \<open>my_key_name\<close>.
\<close>

theorem sanitizeFilename_keeps_outer_underscores:
  "sanitizeFilename (js '' a '') = js ''_a_''
   \<and> sanitizeFilename (js ''my:key name'') = js ''my_key_name''"
  by (simp add: sanitizeFilename_def trim_def replace_reserved_def reserved_def is_space_def
      underscore_def js_def)

section \<open>Validation\<close>

text \<open>
  C8, as stated: a value is valid iff it is a non-array object whose values are valid trees
  or leaves that are not objects. An array is an object, so an object holding an array
  would be invalid; \<open>isValidTree\<close> accepts it.
\<close>

theorem isValidTree_accepts_nested_array:
  "isValidTree (JObj [(js ''a'', JArr [])]) \<and> \<not> spec_isValidTree (JObj [(js ''a'', JArr [])])"
  by (simp add: isValidTree_def)

text \<open>
  C8, amended: \<open>isValidTree\<close> returns true iff the value is a non-array object. It
  returns false for every array and every primitive, true for the empty object, and no
  nested value makes it false: every value that is not a non-array object, arrays and null
  included, counts as a file. It is a total function of its argument.
\<close>

theorem isValidTree_iff_object:
  "isValidTree v = (\<exists>kvs. v = JObj kvs)"
  by (cases v rule: falsy.cases) (auto simp: isValidTree_def isValidTree_every_True)

text \<open>C8 at an object that holds an array and a directory, and at an array.\<close>

theorem isValidTree_iff_object_witness:
  "isValidTree (JObj [(js ''a'', JArr []), (js ''b'', JObj [])]) \<and> \<not> isValidTree (JArr [])"
  using isValidTree_iff_object [of "JObj [(js ''a'', JArr []), (js ''b'', JObj [])]"]
    isValidTree_iff_object [of "JArr []"]
  by simp

section \<open>Lookup by path\<close>

text \<open>
  C9, as stated: only a falsy path or a missing segment yields null. The object that holds
  null under the name \<open>a\<close> yields null for the path \<open>a\<close>, which is not empty and whose one
  segment is a property of the object. And a segment that is missing from the tree need
  not yield null: for the path \<open>toString\<close> and an object without such a property, the
  lookup returns the function that every object inherits.
\<close>

theorem findNodeByPath_null_not_only_missing:
  "findNodeByPath es2023_array_methods (JObj [(js ''a'', JPrim PNull)]) (js ''a'') = Node (JPrim PNull)
   \<and> js ''a'' \<noteq> []
   \<and> map_of [(js ''a'', JPrim PNull)] (js ''a'') = Some (JPrim PNull)
   \<and> findNodeByPath es2023_array_methods (JObj [(js ''a'', JPrim (PStr (js ''x'')))]) (js ''toString'')
       = Host BuiltinFunction
   \<and> map_of [(js ''a'', JPrim (PStr (js ''x'')))] (js ''toString'') = None"
  by (simp add: findNodeByPath_def pathParts_def js_def slash_def inherited_object_def
      object_prototype_names_def proto_def)

text \<open>
  C9, amended: for every tree (a value that is not falsy) and every non-empty path made
  of slashes only, \<open>findNodeByPath\<close> returns the tree itself: the empty segments are
  filtered out and the walk over no segments ends where it started. The empty path, which
  is falsy, yields null, and so does a path with a segment that is neither a property of
  the directory that the segments before it lead to nor one of the names that every
  object inherits. Null is also what the lookup returns for a node that holds null.
\<close>

theorem findNodeByPath_slashes_only:
  "(p \<noteq> [] \<and> set p \<subseteq> {slash} \<and> \<not> falsy t \<longrightarrow> findNodeByPath arrayMethods t p = Node t)
   \<and> findNodeByPath arrayMethods t [] = Node (JPrim PNull)
   \<and> (pathParts q = before @ part # rest \<and> own_node t before = Some (JObj kvs)
        \<and> part \<notin> set (map fst kvs) \<and> part \<noteq> proto \<and> part \<notin> set object_prototype_names \<longrightarrow>
      findNodeByPath arrayMethods t q = Node (JPrim PNull))
   \<and> (own_node t (pathParts q) = Some (JPrim PNull) \<longrightarrow>
      findNodeByPath arrayMethods t q = Node (JPrim PNull))"
proof (intro conjI impI)
  assume "p \<noteq> [] \<and> set p \<subseteq> {slash} \<and> \<not> falsy t"
  then show "findNodeByPath arrayMethods t p = Node t"
    by (simp add: findNodeByPath_def pathParts_slashes)
next
  show "findNodeByPath arrayMethods t [] = Node (JPrim PNull)"
    by (simp add: findNodeByPath_def)
next
  assume a: "pathParts q = before @ part # rest \<and> own_node t before = Some (JObj kvs)
    \<and> part \<notin> set (map fst kvs) \<and> part \<noteq> proto \<and> part \<notin> set object_prototype_names"
  then have "map_of kvs part = None" by (simp add: map_of_eq_None_iff)
  with a have "findNodeByPath_walk arrayMethods (Node (JObj kvs)) (part # rest) = Node (JPrim PNull)"
    by (simp add: inherited_object_def)
  with a have "findNodeByPath_walk arrayMethods (Node t) (pathParts q) = Node (JPrim PNull)"
    by (simp add: walk_own_node)
  then show "findNodeByPath arrayMethods t q = Node (JPrim PNull)"
    by (simp add: findNodeByPath_def)
next
  assume "own_node t (pathParts q) = Some (JPrim PNull)"
  then have "findNodeByPath_walk arrayMethods (Node t) (pathParts q @ []) = Node (JPrim PNull)"
    by (simp only: walk_own_node findNodeByPath_walk.simps)
  then show "findNodeByPath arrayMethods t q = Node (JPrim PNull)"
    by (simp add: findNodeByPath_def)
qed

text \<open>
  C9 at the path \<open>//\<close> and a tree with one file; at the path \<open>d/b\<close> for a tree whose
  directory \<open>d\<close> has no \<open>b\<close>; and at the path \<open>d/a\<close> for the same tree, whose directory
  \<open>d\<close> holds null under the name \<open>a\<close>.
\<close>

theorem findNodeByPath_slashes_only_witness:
  "js ''//'' \<noteq> [] \<and> set (js ''//'') \<subseteq> {slash}
   \<and> \<not> falsy (JObj [(js ''a'', JPrim (PStr (js ''x'')))])
   \<and> findNodeByPath es2023_array_methods (JObj [(js ''a'', JPrim (PStr (js ''x'')))]) (js ''//'')
       = Node (JObj [(js ''a'', JPrim (PStr (js ''x'')))])
   \<and> pathParts (js ''d/b'') = [js ''d''] @ js ''b'' # []
   \<and> own_node (JObj [(js ''d'', JObj [(js ''a'', JPrim PNull)])]) [js ''d'']
       = Some (JObj [(js ''a'', JPrim PNull)])
   \<and> js ''b'' \<notin> set (map fst [(js ''a'', JPrim PNull)]) \<and> js ''b'' \<noteq> proto
   \<and> js ''b'' \<notin> set object_prototype_names
   \<and> findNodeByPath es2023_array_methods (JObj [(js ''d'', JObj [(js ''a'', JPrim PNull)])]) (js ''d/b'')
       = Node (JPrim PNull)
   \<and> own_node (JObj [(js ''d'', JObj [(js ''a'', JPrim PNull)])]) (pathParts (js ''d/a''))
       = Some (JPrim PNull)
   \<and> findNodeByPath es2023_array_methods (JObj [(js ''d'', JObj [(js ''a'', JPrim PNull)])]) (js ''d/a'')
       = Node (JPrim PNull)"
  using findNodeByPath_slashes_only
    [of "js ''//''" "JObj [(js ''a'', JPrim (PStr (js ''x'')))]" es2023_array_methods
        "js ''d/b''" "[js ''d'']" "js ''b''" "[]" "[(js ''a'', JPrim PNull)]"]
    findNodeByPath_slashes_only
    [of "js ''//''" "JObj [(js ''d'', JObj [(js ''a'', JPrim PNull)])]" es2023_array_methods
        "js ''d/b''" "[js ''d'']" "js ''b''" "[]" "[(js ''a'', JPrim PNull)]"]
    findNodeByPath_slashes_only
    [of "js ''//''" "JObj [(js ''d'', JObj [(js ''a'', JPrim PNull)])]" es2023_array_methods
        "js ''d/a''" "[js ''d'']" "js ''b''" "[]" "[(js ''a'', JPrim PNull)]"]
  by (simp add: js_def slash_def pathParts_def proto_def object_prototype_names_def)

section \<open>A file written over a directory\<close>

text \<open>
  C10, as stated: when the final segment of a later path names a node that already exists
  as a directory, the directory is replaced by a file holding the default content. The
  segment \<^verbatim>\<open>__proto__\<close> names an object in every directory, the prototype that the
  directory inherits from, which the lookup finds there; the assignment of the content to
  that name creates no property. After the paths \<open>a\<close> and \<^verbatim>\<open>__proto__\<close> the tree is the
  one built from \<open>a\<close> alone, the lookup of \<^verbatim>\<open>__proto__\<close> still finds the prototype, and
  the tree has no node of that name.
\<close>

theorem createTreeFromPaths_proto_not_replaced:
  "createTreeFromPaths [JPrim (PStr (js ''a''))] (JPrim (PStr (js ''x'')))
     = Some (JObj [(js ''a'', JPrim (PStr (js ''x'')))])
   \<and> findNodeByPath es2023_array_methods (JObj [(js ''a'', JPrim (PStr (js ''x'')))]) (js ''__proto__'')
     = Host ObjectPrototype
   \<and> createTreeFromPaths [JPrim (PStr (js ''a'')), JPrim (PStr (js ''__proto__''))]
        (JPrim (PStr (js ''x'')))
     = Some (JObj [(js ''a'', JPrim (PStr (js ''x'')))])
   \<and> own_node (JObj [(js ''a'', JPrim (PStr (js ''x'')))]) (pathParts (js ''__proto__'')) = None"
  by (simp add: createTreeFromPaths_def findNodeByPath_def inherited_object_def pathParts_def
      js_def slash_def obj_put_def proto_def array_index_def is_digit_def)

text \<open>
  C10, amended: when \<open>createTreeFromPaths\<close> has processed a path with at least one
  segment, none of them \<^verbatim>\<open>__proto__\<close>, the node at that path holds the default content,
  whatever the earlier paths had put there: a directory of that name is replaced with its
  whole subtree, and no error is raised. With a primitive content and no segment
  \<^verbatim>\<open>__proto__\<close> in the earlier paths either, the construction never leaves the tree, so
  the result is there.
\<close>

theorem createTreeFromPaths_last_path_is_file:
  assumes "pathParts p \<noteq> []" and "proto \<notin> set (pathParts p)"
  shows "(createTreeFromPaths (paths @ [JPrim (PStr p)]) c = Some tree \<longrightarrow>
            own_node tree (pathParts p) = Some c)
       \<and> ((\<forall>q \<in> set paths. proto_free q) \<longrightarrow>
            createTreeFromPaths (paths @ [JPrim (PStr p)]) (JPrim pr) \<noteq> None)"
proof (intro conjI impI)
  from assms(1) have p: "p \<noteq> []" by (auto simp: pathParts_def)
  assume "createTreeFromPaths (paths @ [JPrim (PStr p)]) c = Some tree"
  then obtain es' where es': "createTreeFromPaths_forEach c (paths @ [JPrim (PStr p)]) [] = Some es'"
    and tree: "tree = JObj (built_entries c es')"
    by (auto simp: createTreeFromPaths_def)
  from es' obtain es where "createTreeFromPaths_forEach c paths [] = Some es"
    and "createTreeFromPaths_path c (JPrim (PStr p)) es = Some es'"
    by (auto simp: forEach_snoc split: option.splits)
  with p have "createTreeFromPaths_parts c es (pathParts p) = Some es'" by simp
  with assms have "built_node (Folder es') (pathParts p) = Some Content"
    by (rule parts_node)
  then have "own_node (built_value c (Folder es')) (pathParts p) = Some (built_value c Content)"
    by (rule own_node_built)
  with tree show "own_node tree (pathParts p) = Some c" by simp
next
  assume "\<forall>q \<in> set paths. proto_free q"
  with assms(2) have "\<forall>q \<in> set (paths @ [JPrim (PStr p)]). proto_free q" by simp
  then have "createTreeFromPaths_forEach (JPrim pr) (paths @ [JPrim (PStr p)]) [] \<noteq> None"
    by (rule forEach_defined)
  then show "createTreeFromPaths (paths @ [JPrim (PStr p)]) (JPrim pr) \<noteq> None"
    by (simp add: createTreeFromPaths_def)
qed

text \<open>
  C10 at the paths \<open>a/b\<close> and then \<open>a\<close>: after the first path \<open>a\<close> is a directory holding
  the file \<open>b\<close>; after the second it is a file.
\<close>

theorem createTreeFromPaths_last_path_is_file_witness:
  "pathParts (js ''a'') \<noteq> [] \<and> proto \<notin> set (pathParts (js ''a''))
   \<and> proto_free (JPrim (PStr (js ''a/b'')))
   \<and> createTreeFromPaths [JPrim (PStr (js ''a/b''))] (JPrim (PStr (js ''x'')))
       = Some (JObj [(js ''a'', JObj [(js ''b'', JPrim (PStr (js ''x'')))])])
   \<and> own_node (JObj [(js ''a'', JObj [(js ''b'', JPrim (PStr (js ''x'')))])]) (pathParts (js ''a''))
       = Some (JObj [(js ''b'', JPrim (PStr (js ''x'')))])
   \<and> createTreeFromPaths ([JPrim (PStr (js ''a/b''))] @ [JPrim (PStr (js ''a''))])
        (JPrim (PStr (js ''x'')))
       = Some (JObj [(js ''a'', JPrim (PStr (js ''x'')))])
   \<and> own_node (JObj [(js ''a'', JPrim (PStr (js ''x'')))]) (pathParts (js ''a''))
       = Some (JPrim (PStr (js ''x'')))"
  using createTreeFromPaths_last_path_is_file
    [of "js ''a''" "[JPrim (PStr (js ''a/b''))]" "JPrim (PStr (js ''x''))"
        "JObj [(js ''a'', JPrim (PStr (js ''x'')))]" "PStr (js ''x'')"]
  by (simp add: createTreeFromPaths_def pathParts_def js_def slash_def obj_put_def proto_def
      array_index_def is_digit_def)

section \<open>Duplicate paths\<close>

text \<open>
  C7, as stated: no path is produced twice, because sanitization and index naming make
  sibling names unique. \<open>generateFileStructure\<close> does not sanitize and lists the path
  \<open>a/b.json\<close> twice for an object with the keys \<open>a\<close> (holding \<open>b\<close>) and \<open>a/b\<close>. In
  \<open>createFileTree\<close> the sibling keys \<open>a b\<close> and \<open>a_b\<close> sanitize to the same name, and the
  second file overwrites the first.
\<close>

theorem sibling_names_collide:
  "\<not> distinct (map fst (generateFileStructure
        (JObj [(js ''a'', JObj [(js ''b'', JPrim (PNum (js ''1'')))]),
               (js ''a/b'', JPrim (PNum (js ''2'')))]) []))
   \<and> sanitizeFilename (js ''a b'') = sanitizeFilename (js ''a_b'')
   \<and> createFileTree (JObj [(js ''a b'', JPrim (PNum (js ''1''))),
                           (js ''a_b'', JPrim (PNum (js ''2'')))]) []
       = JObj [(js ''a_b.txt'', JPrim (PStr (js ''2'')))]"
  by (simp add: generateFileStructure_def createFileTree_def sanitizeFilename_def trim_def
      replace_reserved_def reserved_def is_space_def underscore_def js_def obj_put_def proto_def
      array_index_def is_digit_def Let_def)

text \<open>
  C7, amended: for every JSON value and base path, the file paths of the flat map that
  \<open>createFileTree\<close> builds contain no duplicate. The map is keyed by path, and a later
  file with the path of an earlier one takes its place.
\<close>

theorem createFileTree_paths_distinct:
  "distinct (getFilePaths (createFileTree v basePath) [])"
proof -
  have "flat_files (processNode v basePath [])"
  proof (rule processNode_invariant(1) [where I = flat_files])
    show "flat_files []" by (simp add: flat_files_def)
  qed (rule flat_files_obj_put)
  then show ?thesis
    by (simp add: getFilePaths_def createFileTree_def flat_files_def getFilePaths_flat)
qed

section \<open>Sorting twice\<close>




section \<open>Round trip through the file paths\<close>

text \<open>
  C6, as stated: for every tree and every default content, rebuilding a tree from its
  file paths gives the same set of file paths. A file with the empty name has the empty
  path, which \<open>createTreeFromPaths\<close> skips; a name with a slash is split into several
  segments; the assignment of a file named \<^verbatim>\<open>__proto__\<close> creates no property; and a
  default content that is an object makes a directory of every leaf, here an empty one,
  which has no file path. In each of the four cases the file paths of the tree are given
  first, then the tree rebuilt from them and its file paths.
\<close>

theorem round_trip_loses_odd_names:
  "getFilePaths (JObj [([], JPrim (PStr (js ''x'')))]) [] = [[]]
   \<and> createTreeFromPaths [JPrim (PStr [])] (JPrim (PStr [])) = Some (JObj [])
   \<and> getFilePaths (JObj []) [] = []
   \<and> getFilePaths (JObj [(js ''/a'', JPrim (PStr (js ''x'')))]) [] = [js ''/a'']
   \<and> createTreeFromPaths [JPrim (PStr (js ''/a''))] (JPrim (PStr []))
       = Some (JObj [(js ''a'', JPrim (PStr []))])
   \<and> getFilePaths (JObj [(js ''a'', JPrim (PStr []))]) [] = [js ''a'']
   \<and> js ''a'' \<noteq> js ''/a''
   \<and> getFilePaths (JObj [(js ''__proto__'', JPrim (PStr (js ''x'')))]) [] = [js ''__proto__'']
   \<and> createTreeFromPaths [JPrim (PStr (js ''__proto__''))] (JPrim (PStr [])) = Some (JObj [])
   \<and> getFilePaths (JObj [(js ''a'', JPrim (PStr (js ''x'')))]) [] = [js ''a'']
   \<and> createTreeFromPaths [JPrim (PStr (js ''a''))] (JObj []) = Some (JObj [(js ''a'', JObj [])])
   \<and> getFilePaths (JObj [(js ''a'', JObj [])]) [] = []"
  by (simp add: getFilePaths_def createTreeFromPaths_def join_path_def pathParts_def js_def
      slash_def obj_put_def proto_def array_index_def is_digit_def)

text \<open>
  C6, amended: for every tree whose names, in every directory, are non-empty, free of
  slashes and not \<^verbatim>\<open>__proto__\<close> (and distinct, as the keys of an object are), and for
  every default content that is not itself a directory (a non-array object), the tree
  rebuilt from the file paths of the tree exists and has the same set of file paths.
\<close>

theorem createTreeFromPaths_round_trip:
  assumes "names_ok (JObj kvs)" and "\<not> isDirectory c"
  shows "\<exists>tree. createTreeFromPaths (map (\<lambda>p. JPrim (PStr p)) (getFilePaths (JObj kvs) [])) c
            = Some tree
       \<and> set (getFilePaths tree []) = set (getFilePaths (JObj kvs) [])"
proof -
  let ?segss = "leaves kvs"
  have ok: "\<forall>segs \<in> set ?segss. segs \<noteq> [] \<and> (\<forall>s \<in> set segs. valid_name s)"
    using leaves_nonempty [of _ kvs] leaves_valid [OF assms(1)] by blast
  have paths: "getFilePaths (JObj kvs) [] = map (foldl join_path []) ?segss"
    by (simp add: getFilePaths_def getFilePaths_leaves)
  have "\<exists>tree'. createTreeFromPaths_forEach c
           (map (\<lambda>p. JPrim (PStr p)) (map (foldl join_path []) ?segss)) [] = Some tree'
      \<and> set (built_leaves tree') = set (built_leaves []) \<union> set ?segss"
  proof (rule leaves_forEach)
    show "built_distinct []" by simp
    show "\<forall>segs \<in> set ?segss. segs \<noteq> [] \<and> (\<forall>s \<in> set segs. valid_name s)" by (rule ok)
    from assms(1) show "antichain (set (built_leaves []) \<union> set ?segss)"
      by (simp add: leaves_antichain)
  qed
  then obtain tree' where run: "createTreeFromPaths_forEach c
      (map (\<lambda>p. JPrim (PStr p)) (getFilePaths (JObj kvs) [])) [] = Some tree'"
    and same: "set (built_leaves tree') = set ?segss"
    unfolding paths by auto
  from run have "createTreeFromPaths (map (\<lambda>p. JPrim (PStr p)) (getFilePaths (JObj kvs) [])) c
      = Some (JObj (built_entries c tree'))"
    by (simp add: createTreeFromPaths_def)
  moreover from assms(2) have "getFilePaths (JObj (built_entries c tree')) []
      = map (foldl join_path []) (built_leaves tree')"
    by (simp add: getFilePaths_def getFilePaths_built)
  then have "set (getFilePaths (JObj (built_entries c tree')) []) = set (getFilePaths (JObj kvs) [])"
    unfolding paths by (simp add: same)
  ultimately show ?thesis by blast
qed

text \<open>
  C6 at a tree with a nested file, an empty directory and a top-level file: its file paths
  are \<open>a/b\<close> and \<open>d\<close>, and so are those of the rebuilt tree, which has lost the empty
  directory and the contents.
\<close>

theorem createTreeFromPaths_round_trip_witness:
  "names_ok (JObj [(js ''a'', JObj [(js ''b'', JPrim (PStr (js ''1''))), (js ''c'', JObj [])]),
                   (js ''d'', JPrim (PStr (js ''2'')))])
   \<and> \<not> isDirectory (JPrim (PStr []))
   \<and> getFilePaths (JObj [(js ''a'', JObj [(js ''b'', JPrim (PStr (js ''1''))), (js ''c'', JObj [])]),
                   (js ''d'', JPrim (PStr (js ''2'')))]) [] = [js ''a/b'', js ''d'']
   \<and> createTreeFromPaths (map (\<lambda>p. JPrim (PStr p))
        (getFilePaths (JObj [(js ''a'', JObj [(js ''b'', JPrim (PStr (js ''1''))), (js ''c'', JObj [])]),
                   (js ''d'', JPrim (PStr (js ''2'')))]) [])) (JPrim (PStr []))
     = Some (JObj [(js ''a'', JObj [(js ''b'', JPrim (PStr []))]), (js ''d'', JPrim (PStr []))])
   \<and> set (getFilePaths (JObj [(js ''a'', JObj [(js ''b'', JPrim (PStr []))]), (js ''d'', JPrim (PStr []))]) [])
     = {js ''a/b'', js ''d''}"
  using createTreeFromPaths_round_trip
    [of "[(js ''a'', JObj [(js ''b'', JPrim (PStr (js ''1''))), (js ''c'', JObj [])]),
          (js ''d'', JPrim (PStr (js ''2'')))]" "JPrim (PStr [])"]
  by (simp add: getFilePaths_def createTreeFromPaths_def join_path_def pathParts_def js_def
      slash_def valid_name_def obj_put_def proto_def array_index_def is_digit_def)

end
